theory Spec2Isabelle
  imports Main "HOL-Library.Multiset" "HOL-Library.Sublist" "HOL-Library.Code_Target_Nat"
begin

section \<open>LZ77: constants and match search (lz77.py)\<close>

text \<open>
  Bytes are Python ints in the range 0..255 and are modelled as natural numbers; a file
  is a list of them. The three module constants of lz77.py keep their names.
\<close>

definition SEARCH_WINDOW_SIZE :: nat where
  "SEARCH_WINDOW_SIZE = 4095"

definition LOOKAHEAD_SIZE :: nat where
  "LOOKAHEAD_SIZE = 15"

definition MIN_MATCH_LENGTH :: nat where
  "MIN_MATCH_LENGTH = 3"

text \<open>
  The inner loop of \<open>find_longest_match\<close>:
  \<^verbatim>\<open>for j in range(limit): if window[index_in_window + j] == lookahead[j]:
  current_match_length += 1 else: break\<close>.
  The loop is entered with \<open>limit \<le> len(lookahead)\<close> and
  \<open>limit \<le> len(window) - index_in_window\<close>, so both reads are in range.
\<close>

function match_length_loop ::
  "nat list \<Rightarrow> nat list \<Rightarrow> nat \<Rightarrow> nat \<Rightarrow> nat \<Rightarrow> nat \<Rightarrow> nat" where
  "match_length_loop window lookahead index_in_window limit j current_match_length =
     (if j < limit then
        (if window ! (index_in_window + j) = lookahead ! j
         then match_length_loop window lookahead index_in_window limit (j + 1)
                (current_match_length + 1)
         else current_match_length)
      else current_match_length)"
  by pat_completeness auto
termination
  by (relation "measure (\<lambda>(w, l, i, limit, j, c). limit - j)") auto

declare match_length_loop.simps [simp del]

text \<open>
  The candidate length the source computes at one window index: the limit is
  \<open>min(len(lookahead), len(window) - index_in_window)\<close> and the count starts at 0.
\<close>

definition candidate_length :: "nat list \<Rightarrow> nat list \<Rightarrow> nat \<Rightarrow> nat" where
  "candidate_length window lookahead index_in_window =
     match_length_loop window lookahead index_in_window
       (min (length lookahead) (length window - index_in_window)) 0 0"

text \<open>
  The outer loop \<^verbatim>\<open>for index_in_window in range(len(window))\<close>, carrying
  \<open>max_length\<close> and \<open>best_distance\<close>. It is only run on a non-empty lookahead, so
  \<open>lookahead[0]\<close> exists.
\<close>

function scan_window ::
  "nat list \<Rightarrow> nat list \<Rightarrow> nat \<Rightarrow> nat \<Rightarrow> nat \<Rightarrow> nat \<times> nat" where
  "scan_window window lookahead index_in_window max_length best_distance =
     (if index_in_window < length window then
        (if window ! index_in_window \<noteq> lookahead ! 0
         then scan_window window lookahead (index_in_window + 1) max_length best_distance
         else
           (let current_match_length = candidate_length window lookahead index_in_window
            in if current_match_length > max_length
               then scan_window window lookahead (index_in_window + 1)
                      current_match_length (length window - index_in_window)
               else scan_window window lookahead (index_in_window + 1)
                      max_length best_distance))
      else (max_length, best_distance))"
  by pat_completeness auto
termination
  by (relation "measure (\<lambda>(w, l, i, m, b). length w - i)") auto

declare scan_window.simps [simp del]

text \<open>\<open>find_longest_match\<close> returns the pair (distance, length).\<close>

definition find_longest_match :: "nat list \<Rightarrow> nat list \<Rightarrow> nat \<times> nat" where
  "find_longest_match window lookahead =
     (if lookahead = [] \<or> length lookahead < MIN_MATCH_LENGTH then (0, 0)
      else
        (case scan_window window lookahead 0 0 0 of
           (max_length, best_distance) \<Rightarrow>
             if max_length < MIN_MATCH_LENGTH then (0, 0)
             else (best_distance, max_length)))"

section \<open>LZ77: tokenisation (encode_lz77)\<close>

text \<open>
  A token is the tuple \<open>(distance, length, next_literal)\<close> of the source, where
  \<open>next_literal\<close> may be \<open>None\<close>. The slice \<open>data[a:b]\<close> is \<open>drop a (take b data)\<close>;
  \<open>max(0, i - SEARCH_WINDOW_SIZE)\<close> is the truncated subtraction on naturals.
  The source appends each token to a list and moves \<open>i\<close> forward; the model returns the
  tokens emitted from position \<open>i\<close> onwards, in the same order.
\<close>

type_synonym token = "nat \<times> nat \<times> nat option"

definition search_window_at :: "nat list \<Rightarrow> nat \<Rightarrow> nat list" where
  "search_window_at data i = drop (i - SEARCH_WINDOW_SIZE) (take i data)"

definition lookahead_at :: "nat list \<Rightarrow> nat \<Rightarrow> nat list" where
  "lookahead_at data i = drop i (take (i + LOOKAHEAD_SIZE) data)"

definition token_at :: "nat list \<Rightarrow> nat \<Rightarrow> token" where
  "token_at data i =
     (case find_longest_match (search_window_at data i) (lookahead_at data i) of
        (distance, len) \<Rightarrow>
          (let has_next_literal = (i + len < length data)
           in if len \<ge> MIN_MATCH_LENGTH
              then (distance, len, if has_next_literal then Some (data ! (i + len)) else None)
              else (0, 0, Some (data ! i))))"

definition token_advance :: "nat list \<Rightarrow> nat \<Rightarrow> nat" where
  "token_advance data i =
     (case find_longest_match (search_window_at data i) (lookahead_at data i) of
        (distance, len) \<Rightarrow>
          (let has_next_literal = (i + len < length data)
           in if len \<ge> MIN_MATCH_LENGTH
              then len + (if has_next_literal then 1 else 0)
              else 1))"

function encode_from :: "nat list \<Rightarrow> nat \<Rightarrow> token list" where
  "encode_from data i =
     (if i < length data
      then token_at data i # encode_from data (i + token_advance data i)
      else [])"
  by pat_completeness auto
termination
proof (relation "measure (\<lambda>(data, i). length data - i)")
  show "wf (measure (\<lambda>(data, i). length data - i))" by simp
next
  fix data :: "nat list" and i :: nat
  assume "i < length data"
  moreover have "0 < token_advance data i"
    by (auto simp: token_advance_def MIN_MATCH_LENGTH_def Let_def split: prod.splits)
  ultimately show "((data, i + token_advance data i), (data, i))
      \<in> measure (\<lambda>(data, i). length data - i)"
    by simp
qed

declare encode_from.simps [simp del]

definition encode_lz77 :: "nat list \<Rightarrow> token list" where
  "encode_lz77 data = encode_from data 0"

section \<open>Shared pieces: exceptions, integers as bytes, dicts, bit packing\<close>

text \<open>
  The Python exceptions the two codecs can meet. \<open>ValueError\<close> carries the invalid
  distance of the LZ77 decoder's message.
\<close>

datatype py_exception =
  OverflowError | KeyError | AttributeError | TypeError | IndexError | ValueError nat

text \<open>
  \<open>n.to_bytes(k, byteorder='big')\<close> on a non-negative int: the \<open>k\<close> base-256 digits,
  most significant first; it raises OverflowError when the int does not fit.
  \<open>int.from_bytes(bs, byteorder='big')\<close> is the inverse fold.
\<close>

fun big_endian :: "nat \<Rightarrow> nat \<Rightarrow> nat list" where
  "big_endian 0 v = []"
| "big_endian (Suc k) v = (v div 256 ^ k) mod 256 # big_endian k v"

definition to_bytes :: "nat \<Rightarrow> nat \<Rightarrow> py_exception + nat list" where
  "to_bytes v k = (if v < 256 ^ k then Inr (big_endian k v) else Inl OverflowError)"

definition from_bytes :: "nat list \<Rightarrow> nat" where
  "from_bytes bs = foldl (\<lambda>acc b. acc * 256 + b) 0 bs"

text \<open>
  A Python dict keeps its keys in insertion order, and both codecs iterate over it, so a
  dict is an association list with distinct keys. \<open>d[k] = v\<close> replaces the value of
  an existing key in place and appends a new key at the end; \<open>d.get(k, default)\<close> and
  \<open>d[k]\<close> look the key up.
\<close>

fun dict_set :: "('k \<times> 'v) list \<Rightarrow> 'k \<Rightarrow> 'v \<Rightarrow> ('k \<times> 'v) list" where
  "dict_set [] k v = [(k, v)]"
| "dict_set (p # ps) k v = (if fst p = k then (k, v) # ps else p # dict_set ps k v)"

definition dict_get :: "('k \<times> 'v) list \<Rightarrow> 'k \<Rightarrow> 'v \<Rightarrow> 'v" where
  "dict_get d k dflt = (case map_of d k of None \<Rightarrow> dflt | Some v \<Rightarrow> v)"

text \<open>
  The bit accumulator both compressors use: \<open>buffer = (buffer << 1) | bit;
  bit_count += 1; if bit_count == 8: encoded_data.append(buffer); buffer = 0;
  bit_count = 0\<close>. The state is \<open>(buffer, bit_count, encoded_data)\<close>. The bit is 0 or
  1 and the shifted buffer has a zero low bit, so the bitwise or is an addition.
\<close>

type_synonym pack_state = "nat \<times> nat \<times> nat list"

fun pack_bit :: "pack_state \<Rightarrow> nat \<Rightarrow> pack_state" where
  "pack_bit (buffer, bit_count, encoded_data) bit_val =
     (let buffer' = 2 * buffer + bit_val; bit_count' = bit_count + 1
      in if bit_count' = 8 then (0, 0, encoded_data @ [buffer'])
         else (buffer', bit_count', encoded_data))"

text \<open>
  The final padding of both compressors: \<open>if bit_count > 0: padding_bits = 8 -
  bit_count; buffer = buffer << padding_bits; encoded_data.append(buffer)\<close>. The result
  is \<open>(padding_bits, encoded_data)\<close>.
\<close>

fun finish_padding :: "pack_state \<Rightarrow> nat \<times> nat list" where
  "finish_padding (buffer, bit_count, encoded_data) =
     (if bit_count > 0
      then (8 - bit_count, encoded_data @ [buffer * 2 ^ (8 - bit_count)])
      else (0, encoded_data))"

text \<open>
  Reading bit \<open>i\<close> of a byte, counted from the most significant one:
  \<open>(byte_value >> (7 - i)) & 1\<close>.
\<close>

definition bit_of_byte :: "nat \<Rightarrow> nat \<Rightarrow> nat" where
  "bit_of_byte byte_value i = (byte_value div 2 ^ (7 - i)) mod 2"

section \<open>Huffman: nodes, the priority queue, tree and codes (huffman.py)\<close>

text \<open>
  The class \<open>HuffmanNode\<close>: \<open>byte\<close> is \<open>None\<close> for an internal node, \<open>left\<close> and
  \<open>right\<close> are \<open>None\<close> for a leaf. \<open>__lt__\<close> compares the frequencies only.
\<close>

datatype HuffmanNode =
  HuffmanNode (byte: "nat option") (freq: nat)
    (left: "HuffmanNode option") (right: "HuffmanNode option")

definition node_lt :: "HuffmanNode \<Rightarrow> HuffmanNode \<Rightarrow> bool" where
  "node_lt a b \<longleftrightarrow> freq a < freq b"

text \<open>
  \<open>calculate_frequency\<close>: one pass over the bytes of the file,
  \<open>frequency[byte_int] = frequency.get(byte_int, 0) + 1\<close>. The model takes the content
  of a file that exists.
\<close>

fun calculate_frequency_loop :: "nat list \<Rightarrow> (nat \<times> nat) list \<Rightarrow> (nat \<times> nat) list" where
  "calculate_frequency_loop [] frequency = frequency"
| "calculate_frequency_loop (byte_int # rest) frequency =
     calculate_frequency_loop rest
       (dict_set frequency byte_int (dict_get frequency byte_int 0 + 1))"

definition calculate_frequency :: "nat list \<Rightarrow> (nat \<times> nat) list" where
  "calculate_frequency data = calculate_frequency_loop data []"

subsection \<open>The standard library's heapq on a list of nodes\<close>

text \<open>
  \<open>heapq.heappush\<close> and \<open>heapq.heappop\<close> as CPython's \<open>Lib/heapq.py\<close> defines
  them, with \<open>_siftdown\<close> and \<open>_siftup\<close>; every comparison is \<open>__lt__\<close>.
  \<open>_siftdown(heap, startpos, pos)\<close> takes \<open>newitem = heap[pos]\<close> and moves parents
  down while \<open>newitem < parent\<close>; \<open>(pos - 1) >> 1\<close> is \<open>(pos - 1) div 2\<close> for
  \<open>pos > startpos \<ge> 0\<close>.
\<close>

function siftdown_loop ::
  "HuffmanNode list \<Rightarrow> nat \<Rightarrow> nat \<Rightarrow> HuffmanNode \<Rightarrow> HuffmanNode list" where
  "siftdown_loop heap startpos pos newitem =
     (if pos > startpos then
        (let parentpos = (pos - 1) div 2; parent = heap ! parentpos
         in if node_lt newitem parent
            then siftdown_loop (heap[pos := parent]) startpos parentpos newitem
            else heap[pos := newitem])
      else heap[pos := newitem])"
  by pat_completeness auto
termination
  by (relation "measure (\<lambda>(h, s, p, n). p)") auto

declare siftdown_loop.simps [simp del]

definition siftdown :: "HuffmanNode list \<Rightarrow> nat \<Rightarrow> nat \<Rightarrow> HuffmanNode list" where
  "siftdown heap startpos pos = siftdown_loop heap startpos pos (heap ! pos)"

definition heappush :: "HuffmanNode list \<Rightarrow> HuffmanNode \<Rightarrow> HuffmanNode list" where
  "heappush heap item = siftdown (heap @ [item]) 0 (length (heap @ [item]) - 1)"

text \<open>
  \<open>_siftup(heap, pos)\<close>: the smaller child is moved up until a leaf is reached (the
  right child is taken when it exists and \<open>not heap[childpos] < heap[rightpos]\<close>), then
  \<open>newitem\<close> is put at that leaf and sifted down towards \<open>startpos\<close>.
  \<open>smaller_child\<close> is the choice between \<open>childpos\<close> and \<open>rightpos\<close>; the loop
  returns the list and the position of the leaf.
\<close>

definition smaller_child :: "HuffmanNode list \<Rightarrow> nat \<Rightarrow> nat" where
  "smaller_child heap childpos =
     (let rightpos = childpos + 1
      in if rightpos < length heap \<and> \<not> node_lt (heap ! childpos) (heap ! rightpos)
         then rightpos else childpos)"

function siftup_loop :: "HuffmanNode list \<Rightarrow> nat \<Rightarrow> HuffmanNode list \<times> nat" where
  "siftup_loop heap pos =
     (if 2 * pos + 1 < length heap then
        siftup_loop (heap[pos := heap ! smaller_child heap (2 * pos + 1)])
          (smaller_child heap (2 * pos + 1))
      else (heap, pos))"
  by pat_completeness auto
termination
  by (relation "measure (\<lambda>(h, p). length h - p)") (auto simp: smaller_child_def Let_def)

declare siftup_loop.simps [simp del]

definition siftup :: "HuffmanNode list \<Rightarrow> nat \<Rightarrow> HuffmanNode list" where
  "siftup heap pos =
     (let newitem = heap ! pos
      in case siftup_loop heap pos of
           (heap', pos') \<Rightarrow> siftdown (heap'[pos' := newitem]) pos pos')"

text \<open>
  \<open>heappop\<close> returns the popped item and the list left. \<open>heap.pop()\<close> raises
  IndexError on an empty list; the tree construction calls \<open>heappop\<close> twice under the
  guard \<open>len(priority_queue) > 1\<close>, so the list is never empty there and that branch
  is not part of the model.
\<close>

definition heappop :: "HuffmanNode list \<Rightarrow> HuffmanNode \<times> HuffmanNode list" where
  "heappop heap =
     (let lastelt = last heap; heap' = butlast heap
      in if heap' \<noteq> []
         then (let returnitem = heap' ! 0 in (returnitem, siftup (heap'[0 := lastelt]) 0))
         else (lastelt, heap'))"

subsection \<open>build_huffman_tree_and_codes\<close>

text \<open>Step 1: one leaf per dict entry, pushed in the dict's order.\<close>

fun push_leaves :: "(nat \<times> nat) list \<Rightarrow> HuffmanNode list \<Rightarrow> HuffmanNode list" where
  "push_leaves [] priority_queue = priority_queue"
| "push_leaves ((byte_val, cnt) # rest) priority_queue =
     push_leaves rest
       (heappush priority_queue (HuffmanNode (Some byte_val) cnt None None))"

text \<open>One pass of the merge loop's body.\<close>

definition merge_step :: "HuffmanNode list \<Rightarrow> HuffmanNode list" where
  "merge_step priority_queue =
     (case heappop priority_queue of
        (left_node, queue1) \<Rightarrow>
          (case heappop queue1 of
             (right_node, queue2) \<Rightarrow>
               (let merged_freq = freq left_node + freq right_node;
                    parent = HuffmanNode None merged_freq (Some left_node) (Some right_node)
                in heappush queue2 parent)))"

lemma length_siftdown_loop [simp]:
  "length (siftdown_loop heap startpos pos newitem) = length heap"
proof (induction heap startpos pos newitem rule: siftdown_loop.induct)
  case (1 heap startpos pos newitem)
  then show ?case
    by (subst siftdown_loop.simps) (simp add: Let_def)
qed

lemma length_siftup_loop:
  "siftup_loop heap pos = (heap', pos') \<Longrightarrow> length heap' = length heap"
proof (induction heap pos rule: siftup_loop.induct)
  case (1 heap pos)
  show ?case
  proof (cases "2 * pos + 1 < length heap")
    case True
    then have "siftup_loop (heap[pos := heap ! smaller_child heap (2 * pos + 1)])
        (smaller_child heap (2 * pos + 1)) = (heap', pos')"
      using "1.prems" by (subst (asm) siftup_loop.simps) simp
    then show ?thesis using "1.IH"[OF True] by simp
  next
    case False
    then show ?thesis
      using "1.prems" by (subst (asm) siftup_loop.simps) simp
  qed
qed

lemma length_siftup [simp]: "length (siftup heap pos) = length heap"
proof -
  obtain heap' pos' where s: "siftup_loop heap pos = (heap', pos')"
    by (cases "siftup_loop heap pos")
  then show ?thesis
    using length_siftup_loop[OF s] by (simp add: siftup_def siftdown_def Let_def)
qed

lemma length_heappush [simp]: "length (heappush heap item) = length heap + 1"
  by (simp add: heappush_def siftdown_def)

lemma length_heappop [simp]: "length (snd (heappop heap)) = length heap - 1"
proof (cases "butlast heap = []")
  case True
  have "length heap - 1 = length (butlast heap)" by simp
  also have "\<dots> = 0" using True by simp
  finally have "length heap \<le> 1" by simp
  then show ?thesis using True by (simp add: heappop_def Let_def)
next
  case False
  then show ?thesis by (simp add: heappop_def Let_def)
qed

lemma length_merge_step:
  "1 < length priority_queue \<Longrightarrow> length (merge_step priority_queue) = length priority_queue - 1"
proof -
  assume a: "1 < length priority_queue"
  obtain l q1 where p1: "heappop priority_queue = (l, q1)"
    by (cases "heappop priority_queue")
  obtain r q2 where p2: "heappop q1 = (r, q2)"
    by (cases "heappop q1")
  have "length q1 = length priority_queue - 1"
    using length_heappop[of priority_queue] p1 by simp
  moreover have "length q2 = length q1 - 1"
    using length_heappop[of q1] p2 by simp
  ultimately show ?thesis
    using a p1 p2 by (simp add: merge_step_def Let_def)
qed

text \<open>Step 2: \<open>while len(priority_queue) > 1\<close>.\<close>

function merge_loop :: "HuffmanNode list \<Rightarrow> HuffmanNode list" where
  "merge_loop priority_queue =
     (if length priority_queue > 1 then merge_loop (merge_step priority_queue)
      else priority_queue)"
  by pat_completeness auto
termination
  by (relation "measure length") (auto simp: length_merge_step)

declare merge_loop.simps [simp del]

text \<open>
  Step 3: \<open>generate_codes_recursive\<close> fills the dict \<open>huffman_codes\<close>; a code is a
  string of the characters 0 and 1. The model threads the dict through the two
  recursive calls.
\<close>

fun generate_codes_recursive ::
  "HuffmanNode \<Rightarrow> string \<Rightarrow> (nat \<times> string) list \<Rightarrow> (nat \<times> string) list" where
  "generate_codes_recursive (HuffmanNode b f l r) current_code huffman_codes =
     (case b of
        Some byte_val \<Rightarrow> dict_set huffman_codes byte_val current_code
      | None \<Rightarrow>
          (let codes1 =
                 (case l of
                    Some left_node \<Rightarrow>
                      generate_codes_recursive left_node (current_code @ ''0'') huffman_codes
                  | None \<Rightarrow> huffman_codes)
           in (case r of
                 Some right_node \<Rightarrow>
                   generate_codes_recursive right_node (current_code @ ''1'') codes1
               | None \<Rightarrow> codes1)))"

text \<open>
  The function returns \<open>(root, huffman_codes)\<close>. With one node in the queue the root
  is that leaf and the dict is \<open>{root.byte: '0'}\<close>; the leaf was built from a dict key,
  so its byte is not \<open>None\<close>.
\<close>

definition build_huffman_tree_and_codes ::
  "(nat \<times> nat) list \<Rightarrow> HuffmanNode option \<times> (nat \<times> string) list" where
  "build_huffman_tree_and_codes frequency =
     (let priority_queue = push_leaves frequency []
      in if priority_queue = [] then (None, [])
         else if length priority_queue = 1 then
           (let root = priority_queue ! 0
            in (Some root, (case byte root of Some b \<Rightarrow> [(b, ''0'')] | None \<Rightarrow> [])))
         else
           (let root = merge_loop priority_queue ! 0
            in (Some root, generate_codes_recursive root [] [])))"

section \<open>Huffman: compress_file\<close>

text \<open>\<open>int(bit)\<close> on a character of a code, which is 0 or 1.\<close>

definition int_of_bit_char :: "char \<Rightarrow> nat" where
  "int_of_bit_char c = (if c = CHR ''1'' then 1 else 0)"

text \<open>
  Phase 1: every input byte is looked up in \<open>huffman_codes\<close> (a missing key raises
  KeyError) and its code is packed bit by bit.
\<close>

fun encode_bytes ::
  "(nat \<times> string) list \<Rightarrow> nat list \<Rightarrow> pack_state \<Rightarrow> py_exception + pack_state" where
  "encode_bytes huffman_codes [] st = Inr st"
| "encode_bytes huffman_codes (byte_int # rest) st =
     (case map_of huffman_codes byte_int of
        None \<Rightarrow> Inl KeyError
      | Some code \<Rightarrow>
          encode_bytes huffman_codes rest
            (foldl (\<lambda>s c. pack_bit s (int_of_bit_char c)) st code))"

text \<open>
  Phase 3, the frequency table: one byte for the value and four for the count of every
  entry. The accumulator is what has been written to the output file so far; an
  exception leaves that much in the file.
\<close>

fun write_frequency_table ::
  "(nat \<times> nat) list \<Rightarrow> nat list \<Rightarrow> (py_exception \<times> nat list) + nat list" where
  "write_frequency_table [] out = Inr out"
| "write_frequency_table ((byte_val, cnt) # rest) out =
     (case to_bytes byte_val 1 of
        Inl e \<Rightarrow> Inl (e, out)
      | Inr b \<Rightarrow>
          (case to_bytes cnt 4 of
             Inl e \<Rightarrow> Inl (e, out @ b)
           | Inr c \<Rightarrow> write_frequency_table rest (out @ b @ c)))"

text \<open>
  The outcome of \<open>compress_file\<close> on the content of the input file: the refusal
  \<open>Compression failed: Could not read file or file is empty.\<close> (no output file), an
  exception caught by the function (with what the output file holds), or success with
  the content of the \<open>.huff\<close> file.
\<close>

datatype compress_result =
  CompressionFailed
  | CompressionError py_exception "nat list"
  | Compressed "nat list"

definition compress_file :: "nat list \<Rightarrow> compress_result" where
  "compress_file data =
     (let frequency = calculate_frequency data
      in if frequency = [] then CompressionFailed
         else
           (case build_huffman_tree_and_codes frequency of
              (root, huffman_codes) \<Rightarrow>
                (case encode_bytes huffman_codes data (0, 0, []) of
                   Inl e \<Rightarrow> CompressionError e []
                 | Inr st \<Rightarrow>
                     (case finish_padding st of
                        (padding_bits, encoded_data) \<Rightarrow>
                          (case to_bytes padding_bits 1 of
                             Inl e \<Rightarrow> CompressionError e []
                           | Inr p \<Rightarrow>
                               (case to_bytes (length frequency) 2 of
                                  Inl e \<Rightarrow> CompressionError e p
                                | Inr n \<Rightarrow>
                                    (case write_frequency_table frequency (p @ n) of
                                       Inl (e, out) \<Rightarrow> CompressionError e out
                                     | Inr out \<Rightarrow> Compressed (out @ encoded_data))))))))"

section \<open>Huffman: decompress_file\<close>

text \<open>
  The messages \<open>decompress_file\<close> returns. The output file is opened for writing
  together with the input file, so it exists after every call; the result of the model
  is the message and the content of the output file.
\<close>

datatype huffman_message =
  EmptyOrTruncated
  | HeaderTruncated
  | TableTruncatedByteValue
  | TableTruncatedCount
  | CouldNotRebuildTree
  | Decompressed
  | ByteCountMismatch nat nat
  | DecompressionException py_exception

text \<open>
  Phase 1, the frequency table: \<open>for _ in range(num_unique_bytes)\<close>, reading one byte
  and four bytes from the input; \<open>input_file.read(k)\<close> returns at most \<open>k\<close> bytes.
  The result is the dict, \<open>total_size\<close> and the unread input.
\<close>

fun read_frequency_table ::
  "nat \<Rightarrow> nat list \<Rightarrow> (nat \<times> nat) list \<Rightarrow> nat \<Rightarrow>
   huffman_message + ((nat \<times> nat) list \<times> nat \<times> nat list)" where
  "read_frequency_table 0 input frequency total_size = Inr (frequency, total_size, input)"
| "read_frequency_table (Suc n) input frequency total_size =
     (let byte_val = take 1 input; input1 = drop 1 input
      in if length byte_val < 1 then Inl TableTruncatedByteValue
         else
           (let byte_int = from_bytes byte_val;
                count_bytes = take 4 input1; input2 = drop 4 input1
            in if length count_bytes < 4 then Inl TableTruncatedCount
               else
                 (let cnt = from_bytes count_bytes
                  in read_frequency_table n input2 (dict_set frequency byte_int cnt)
                       (total_size + cnt))))"

text \<open>
  The inner loop \<open>for i in range(bits_to_process)\<close> over one payload byte. The state
  is \<open>(current_node, decoded_byte_count, output)\<close>. \<open>current_node.left\<close> of a leaf is
  \<open>None\<close>, and \<open>current_node.byte\<close> on \<open>None\<close> raises AttributeError. Reaching
  \<open>total_size\<close> breaks out of the loop.
\<close>

type_synonym decode_state = "HuffmanNode \<times> nat \<times> nat list"

fun decode_byte_bits ::
  "HuffmanNode \<Rightarrow> nat \<Rightarrow> nat \<Rightarrow> nat list \<Rightarrow> decode_state \<Rightarrow>
   (py_exception \<times> nat list) + decode_state" where
  "decode_byte_bits root total_size byte_value [] st = Inr st"
| "decode_byte_bits root total_size byte_value (i # is)
       (current_node, decoded_byte_count, out) =
     (let bit_val = bit_of_byte byte_value i;
          next_node = (if bit_val = 0 then left current_node else right current_node)
      in case next_node of
           None \<Rightarrow> Inl (AttributeError, out)
         | Some node \<Rightarrow>
             (case byte node of
                Some b \<Rightarrow>
                  (case to_bytes b 1 of
                     Inl e \<Rightarrow> Inl (e, out)
                   | Inr bs \<Rightarrow>
                       (if decoded_byte_count + 1 \<ge> total_size
                        then Inr (root, decoded_byte_count + 1, out @ bs)
                        else decode_byte_bits root total_size byte_value is
                               (root, decoded_byte_count + 1, out @ bs)))
              | None \<Rightarrow>
                  decode_byte_bits root total_size byte_value is
                    (node, decoded_byte_count, out)))"

text \<open>
  The outer loop \<open>while decoded_byte_count < total_size\<close>: a read at the end of the
  file breaks; \<open>input_file.peek(1) == b''\<close> holds exactly when no byte follows, and
  then the padding bits are left out. \<open>8 - padding_bits\<close> is negative when the header
  says more than 8, and \<open>range\<close> of a negative number is empty, as \<open>[0..<0]\<close> is.
\<close>

fun decode_payload ::
  "HuffmanNode \<Rightarrow> nat \<Rightarrow> nat \<Rightarrow> nat list \<Rightarrow> decode_state \<Rightarrow>
   (py_exception \<times> nat list) + decode_state" where
  "decode_payload root total_size padding_bits [] st = Inr st"
| "decode_payload root total_size padding_bits (byte_value # rest)
       (current_node, decoded_byte_count, out) =
     (if decoded_byte_count < total_size then
        (let bits_to_process = (if rest = [] then 8 - padding_bits else 8)
         in case decode_byte_bits root total_size byte_value [0..<bits_to_process]
                   (current_node, decoded_byte_count, out) of
              Inl e \<Rightarrow> Inl e
            | Inr st \<Rightarrow> decode_payload root total_size padding_bits rest st)
      else Inr (current_node, decoded_byte_count, out))"

definition decompress_file :: "nat list \<Rightarrow> huffman_message \<times> nat list" where
  "decompress_file blob =
     (let padding_bytes = take 1 blob; input1 = drop 1 blob
      in if padding_bytes = [] then (EmptyOrTruncated, [])
         else
           (let padding_bits = from_bytes padding_bytes;
                num_bytes = take 2 input1; input2 = drop 2 input1
            in if length num_bytes < 2 then (HeaderTruncated, [])
               else
                 (case read_frequency_table (from_bytes num_bytes) input2 [] 0 of
                    Inl msg \<Rightarrow> (msg, [])
                  | Inr (frequency, total_size, input3) \<Rightarrow>
                      (case fst (build_huffman_tree_and_codes frequency) of
                         None \<Rightarrow> (CouldNotRebuildTree, [])
                       | Some root \<Rightarrow>
                           (case decode_payload root total_size padding_bits input3
                                   (root, 0, []) of
                              Inl (e, out) \<Rightarrow> (DecompressionException e, out)
                            | Inr (current_node, decoded_byte_count, out) \<Rightarrow>
                                if decoded_byte_count = total_size
                                then (Decompressed, out)
                                else (ByteCountMismatch total_size decoded_byte_count,
                                      out))))))"

section \<open>LZ77: compress_lz77_file\<close>

text \<open>
  \<open>pack_and_write_to_mem(value, num_bits)\<close>: \<open>for i in range(num_bits - 1, -1, -1):
  bit = (value >> i) & 1\<close>, each bit going through the accumulator. The recursion is on
  the number of bits left, so the bit taken first is bit \<open>num_bits - 1\<close>.
\<close>

fun pack_and_write_to_mem :: "pack_state \<Rightarrow> nat \<Rightarrow> nat \<Rightarrow> pack_state" where
  "pack_and_write_to_mem st v 0 = st"
| "pack_and_write_to_mem st v (Suc i) =
     pack_and_write_to_mem (pack_bit st ((v div 2 ^ i) mod 2)) v i"

text \<open>
  One token: a Match token is the flag 1, the distance on 12 bits, \<open>length -
  MIN_MATCH_LENGTH\<close> on 4 bits and the next literal on 8 bits when it is not \<open>None\<close>;
  a Literal token is the flag 0 and the literal on 8 bits. Shifting \<open>None\<close> raises
  TypeError.
\<close>

definition pack_token :: "pack_state \<Rightarrow> token \<Rightarrow> py_exception + pack_state" where
  "pack_token st tok =
     (case tok of
        (distance, len, next_literal) \<Rightarrow>
          if len \<ge> MIN_MATCH_LENGTH then
            (let st1 = pack_and_write_to_mem st 1 1;
                 st2 = pack_and_write_to_mem st1 distance 12;
                 st3 = pack_and_write_to_mem st2 (len - MIN_MATCH_LENGTH) 4
             in case next_literal of
                  Some lit \<Rightarrow> Inr (pack_and_write_to_mem st3 lit 8)
                | None \<Rightarrow> Inr st3)
          else
            (let st1 = pack_and_write_to_mem st 0 1
             in case next_literal of
                  Some literal_byte \<Rightarrow> Inr (pack_and_write_to_mem st1 literal_byte 8)
                | None \<Rightarrow> Inl TypeError))"

fun pack_tokens :: "pack_state \<Rightarrow> token list \<Rightarrow> py_exception + pack_state" where
  "pack_tokens st [] = Inr st"
| "pack_tokens st (tok # toks) =
     (case pack_token st tok of
        Inl e \<Rightarrow> Inl e
      | Inr st' \<Rightarrow> pack_tokens st' toks)"

text \<open>
  The outcome of \<open>compress_lz77_file\<close> on the content of the input file: the refusal
  \<open>Compression failed: File is empty.\<close>, an exception caught by the function, or
  success with the content of the \<open>.lz77\<close> file (the 8-byte size, the padding byte,
  the payload).
\<close>

datatype lz77_compress_result =
  Lz77EmptyFile
  | Lz77CompressionError py_exception
  | Lz77Compressed "nat list"

definition compress_lz77_file :: "nat list \<Rightarrow> lz77_compress_result" where
  "compress_lz77_file data =
     (if data = [] then Lz77EmptyFile
      else
        (let original_size = length data; tokens = encode_lz77 data
         in case pack_tokens (0, 0, []) tokens of
              Inl e \<Rightarrow> Lz77CompressionError e
            | Inr st \<Rightarrow>
                (case finish_padding st of
                   (padding_bits, encoded_data) \<Rightarrow>
                     (case to_bytes original_size 8 of
                        Inl e \<Rightarrow> Lz77CompressionError e
                      | Inr size_bytes \<Rightarrow>
                          (case to_bytes padding_bits 1 of
                             Inl e \<Rightarrow> Lz77CompressionError e
                           | Inr padding_bytes \<Rightarrow>
                               Lz77Compressed
                                 (size_bytes @ padding_bytes @ encoded_data))))))"

section \<open>LZ77: decompress_lz77_file\<close>

text \<open>
  \<open>read_bits(num_bits)\<close> over \<open>compressed_data\<close> with the absolute cursor
  \<open>current_bit_index\<close>. \<open>MAX_BITS = len(compressed_data) * 8 - padding_bits\<close> is an
  int and can be negative. A successful read returns the value and the new cursor. When
  the bits run out the source parks the cursor at \<open>MAX_BITS\<close> and returns \<open>None\<close>;
  every caller then breaks out of the decoding loop and the cursor is not read again, so
  the model returns \<open>None\<close> alone. A read that passes the bound check stays inside
  \<open>compressed_data\<close>, since \<open>MAX_BITS \<le> len(compressed_data) * 8\<close>.
\<close>

fun read_bits_loop :: "nat list \<Rightarrow> nat \<Rightarrow> nat \<Rightarrow> nat \<Rightarrow> nat \<times> nat" where
  "read_bits_loop compressed_data 0 current_bit_index result = (result, current_bit_index)"
| "read_bits_loop compressed_data (Suc n) current_bit_index result =
     (let byte_index = current_bit_index div 8;
          bit_in_byte = current_bit_index mod 8;
          byte_value = compressed_data ! byte_index;
          bit_val = bit_of_byte byte_value bit_in_byte
      in read_bits_loop compressed_data n (current_bit_index + 1) (2 * result + bit_val))"

definition read_bits :: "nat list \<Rightarrow> int \<Rightarrow> nat \<Rightarrow> nat \<Rightarrow> (nat \<times> nat) option" where
  "read_bits compressed_data MAX_BITS current_bit_index num_bits =
     (if int (current_bit_index + num_bits) > MAX_BITS then None
      else Some (read_bits_loop compressed_data num_bits current_bit_index 0))"

text \<open>
  The copy of a match: \<open>for _ in range(length)\<close>, stopping early at
  \<open>original_size\<close>. The state is \<open>(output_buffer, start_copy, decoded_count)\<close>. A read
  of \<open>output_buffer[start_copy]\<close> past the end raises IndexError; \<open>start_copy\<close> is
  never negative, because it is computed after the distance check.
\<close>

fun copy_match ::
  "nat \<Rightarrow> nat \<Rightarrow> nat list \<times> nat \<times> nat \<Rightarrow> py_exception + (nat list \<times> nat)" where
  "copy_match 0 original_size (output_buffer, start_copy, decoded_count) =
     Inr (output_buffer, decoded_count)"
| "copy_match (Suc n) original_size (output_buffer, start_copy, decoded_count) =
     (if decoded_count \<ge> original_size then Inr (output_buffer, decoded_count)
      else if start_copy < length output_buffer then
        copy_match n original_size
          (output_buffer @ [output_buffer ! start_copy], start_copy + 1, decoded_count + 1)
      else Inl IndexError)"

text \<open>
  One pass of the body of \<open>while decoded_count < original_size\<close>, entered with the
  loop condition true. The state is \<open>(current_bit_index, output_buffer,
  decoded_count)\<close>. The pass ends in a \<open>break\<close>, in an exception, or at the end of
  the body with the loop going on.
\<close>

type_synonym lz77_state = "nat \<times> nat list \<times> nat"

datatype lz77_step = Break "nat list \<times> nat" | Raise py_exception | Continue lz77_state

definition end_of_body :: "nat \<Rightarrow> lz77_state \<Rightarrow> lz77_step" where
  "end_of_body original_size st =
     (case st of
        (current_bit_index, output_buffer, decoded_count) \<Rightarrow>
          if decoded_count \<ge> original_size then Break (output_buffer, decoded_count)
          else Continue st)"

text \<open>
  Step 2 of a Match token, once the token has been read: the distance check, the copy,
  and the next literal \<open>if decoded_count < original_size and literal_read_value is not
  None\<close>.
\<close>

definition copy_and_append ::
  "nat \<Rightarrow> nat \<Rightarrow> nat \<Rightarrow> nat option \<Rightarrow> lz77_state \<Rightarrow> lz77_step" where
  "copy_and_append original_size distance len literal_read_value st =
     (case st of
        (cbi, output_buffer, decoded_count) \<Rightarrow>
          if distance = 0 \<or> distance > length output_buffer
          then Raise (ValueError distance)
          else
            (let start_copy = length output_buffer - distance
             in case copy_match len original_size (output_buffer, start_copy, decoded_count) of
                  Inl e \<Rightarrow> Raise e
                | Inr (buffer1, count1) \<Rightarrow>
                    (case literal_read_value of
                       Some v \<Rightarrow>
                         if count1 < original_size
                         then end_of_body original_size (cbi, buffer1 @ [v], count1 + 1)
                         else end_of_body original_size (cbi, buffer1, count1)
                     | None \<Rightarrow> end_of_body original_size (cbi, buffer1, count1))))"

text \<open>
  The Match branch, after the flag: the distance, the length code, and the next literal
  when \<open>will_read_literal = (decoded_count + length) < original_size\<close>; a read that
  returns \<open>None\<close> breaks.
\<close>

definition decode_match :: "nat list \<Rightarrow> int \<Rightarrow> nat \<Rightarrow> lz77_state \<Rightarrow> lz77_step" where
  "decode_match compressed_data MAX_BITS original_size st =
     (case st of
        (cbi1, output_buffer, decoded_count) \<Rightarrow>
          (case read_bits compressed_data MAX_BITS cbi1 12 of
             None \<Rightarrow> Break (output_buffer, decoded_count)
           | Some (distance, cbi2) \<Rightarrow>
               (case read_bits compressed_data MAX_BITS cbi2 4 of
                  None \<Rightarrow> Break (output_buffer, decoded_count)
                | Some (length_code, cbi3) \<Rightarrow>
                    (let len = length_code + MIN_MATCH_LENGTH;
                         will_read_literal = (decoded_count + len < original_size)
                     in if will_read_literal then
                          (case read_bits compressed_data MAX_BITS cbi3 8 of
                             None \<Rightarrow> Break (output_buffer, decoded_count)
                           | Some (v, cbi4) \<Rightarrow>
                               copy_and_append original_size distance len (Some v)
                                 (cbi4, output_buffer, decoded_count))
                        else
                          copy_and_append original_size distance len None
                            (cbi3, output_buffer, decoded_count)))))"

definition decode_step :: "nat list \<Rightarrow> int \<Rightarrow> nat \<Rightarrow> lz77_state \<Rightarrow> lz77_step" where
  "decode_step compressed_data MAX_BITS original_size st =
     (case st of
        (cbi0, output_buffer, decoded_count) \<Rightarrow>
          (case read_bits compressed_data MAX_BITS cbi0 1 of
             None \<Rightarrow> Break (output_buffer, decoded_count)
           | Some (flag, cbi1) \<Rightarrow>
               if flag = 0 then
                 (case read_bits compressed_data MAX_BITS cbi1 8 of
                    None \<Rightarrow> Break (output_buffer, decoded_count)
                  | Some (literal, cbi2) \<Rightarrow>
                      end_of_body original_size
                        (cbi2, output_buffer @ [literal], decoded_count + 1))
               else if flag = 1 then
                 decode_match compressed_data MAX_BITS original_size
                   (cbi1, output_buffer, decoded_count)
               else end_of_body original_size (cbi1, output_buffer, decoded_count)))"

text \<open>
  Every pass that goes on has consumed the flag bit, so the number of unread bits
  decreases and the loop ends.
\<close>

lemma read_bits_loop_cursor:
  "snd (read_bits_loop compressed_data n current_bit_index result) = current_bit_index + n"
  by (induction n arbitrary: current_bit_index result) (simp_all add: Let_def)

lemma read_bits_cursor:
  "read_bits compressed_data MAX_BITS current_bit_index n = Some (v, c) \<Longrightarrow>
   c = current_bit_index + n \<and> int c \<le> MAX_BITS"
  using read_bits_loop_cursor[of compressed_data n current_bit_index 0]
  by (auto simp: read_bits_def split: if_splits)

lemma copy_and_append_cursor:
  "copy_and_append original_size distance len lit (c, ob, dc) = Continue (c', ob', dc') \<Longrightarrow>
   c' = c"
  by (auto simp: copy_and_append_def end_of_body_def Let_def
      split: if_splits sum.splits prod.splits option.splits)

lemma decode_match_consumes:
  assumes "decode_match compressed_data MAX_BITS original_size (c, ob, dc) = Continue (c', ob', dc')"
  shows "c \<le> c' \<and> int c' \<le> MAX_BITS"
proof -
  obtain distance c2 where r1: "read_bits compressed_data MAX_BITS c 12 = Some (distance, c2)"
    using assms by (auto simp: decode_match_def split: option.splits)
  obtain length_code c3 where r2: "read_bits compressed_data MAX_BITS c2 4 = Some (length_code, c3)"
    using assms r1 by (auto simp: decode_match_def split: option.splits)
  have b: "c \<le> c3" "int c3 \<le> MAX_BITS"
    using read_bits_cursor[OF r1] read_bits_cursor[OF r2] by simp_all
  show ?thesis
  proof (cases "dc + (length_code + MIN_MATCH_LENGTH) < original_size")
    case True
    then obtain v c4 where r3: "read_bits compressed_data MAX_BITS c3 8 = Some (v, c4)"
      using assms r1 r2 by (auto simp: decode_match_def Let_def split: option.splits)
    have "c' = c4"
      using assms r1 r2 r3 True copy_and_append_cursor
      by (simp add: decode_match_def Let_def)
    then show ?thesis using read_bits_cursor[OF r3] b by simp
  next
    case False
    have "c' = c3"
      using assms r1 r2 False copy_and_append_cursor
      by (simp add: decode_match_def Let_def)
    then show ?thesis using b by simp
  qed
qed

lemma decode_step_consumes:
  assumes "decode_step compressed_data MAX_BITS original_size (c, ob, dc) = Continue (c', ob', dc')"
  shows "c < c' \<and> int c' \<le> MAX_BITS"
proof -
  obtain flag c1 where f: "read_bits compressed_data MAX_BITS c 1 = Some (flag, c1)"
    using assms by (auto simp: decode_step_def split: option.splits)
  have c1: "c1 = c + 1" "int c1 \<le> MAX_BITS"
    using read_bits_cursor[OF f] by simp_all
  have "c1 \<le> c' \<and> int c' \<le> MAX_BITS"
  proof (cases "flag = 0")
    case True
    then obtain literal c2 where r: "read_bits compressed_data MAX_BITS c1 8 = Some (literal, c2)"
      using assms f by (auto simp: decode_step_def split: option.splits)
    then have "c' = c2"
      using assms f True by (auto simp: decode_step_def end_of_body_def split: if_splits)
    then show ?thesis using read_bits_cursor[OF r] by simp
  next
    case False
    note nz = False
    show ?thesis
    proof (cases "flag = 1")
      case True
      then have "decode_match compressed_data MAX_BITS original_size (c1, ob, dc)
          = Continue (c', ob', dc')"
        using assms f by (simp add: decode_step_def)
      then show ?thesis by (rule decode_match_consumes)
    next
      case False
      then have "c' = c1"
        using assms f nz by (auto simp: decode_step_def end_of_body_def split: if_splits)
      then show ?thesis using c1 by simp
    qed
  qed
  then show ?thesis using c1 by simp
qed

function decode_loop ::
  "nat list \<Rightarrow> int \<Rightarrow> nat \<Rightarrow> lz77_state \<Rightarrow> py_exception + (nat list \<times> nat)" where
  "decode_loop compressed_data MAX_BITS original_size (c, output_buffer, decoded_count) =
     (if decoded_count < original_size then
        (case decode_step compressed_data MAX_BITS original_size
                (c, output_buffer, decoded_count) of
           Break r \<Rightarrow> Inr r
         | Raise e \<Rightarrow> Inl e
         | Continue st \<Rightarrow> decode_loop compressed_data MAX_BITS original_size st)
      else Inr (output_buffer, decoded_count))"
  by pat_completeness auto
termination
proof (relation "measure (\<lambda>(cd, m, n, (c, ob, dc)). nat (m - int c))")
  show "wf (measure (\<lambda>(cd, m, n, (c, ob, dc)). nat (m - int c)))" by simp
next
  fix compressed_data :: "nat list" and MAX_BITS :: int and original_size c :: nat
    and output_buffer :: "nat list" and decoded_count :: nat and st :: lz77_state
  assume "decode_step compressed_data MAX_BITS original_size
            (c, output_buffer, decoded_count) = Continue st"
  then have "c < fst st \<and> int (fst st) \<le> MAX_BITS"
    using decode_step_consumes[of compressed_data MAX_BITS original_size c output_buffer
        decoded_count "fst st" "fst (snd st)" "snd (snd st)"]
    by simp
  then show "((compressed_data, MAX_BITS, original_size, st),
              (compressed_data, MAX_BITS, original_size, c, output_buffer, decoded_count))
      \<in> measure (\<lambda>(cd, m, n, (c, ob, dc)). nat (m - int c))"
    by (cases st) auto
qed

declare decode_loop.simps [simp del]

text \<open>
  The messages \<open>decompress_lz77_file\<close> returns, and what it writes: the output file
  is opened only in phase 3, after the loop, so it is \<open>None\<close> when the function
  returns or raises before.
\<close>

datatype lz77_message =
  Lz77HeaderTruncatedSize
  | Lz77HeaderTruncatedPadding
  | Lz77Decompressed nat
  | Lz77SizeMismatch nat nat
  | Lz77Exception py_exception

definition decompress_lz77_file :: "nat list \<Rightarrow> lz77_message \<times> nat list option" where
  "decompress_lz77_file blob =
     (let size_bytes = take 8 blob; input1 = drop 8 blob
      in if length size_bytes < 8 then (Lz77HeaderTruncatedSize, None)
         else
           (let original_size = from_bytes size_bytes;
                padding_bytes = take 1 input1; compressed_data = drop 1 input1
            in if length padding_bytes < 1 then (Lz77HeaderTruncatedPadding, None)
               else
                 (let padding_bits = from_bytes padding_bytes;
                      MAX_BITS = int (length compressed_data * 8) - int padding_bits
                  in case decode_loop compressed_data MAX_BITS original_size (0, [], 0) of
                       Inl e \<Rightarrow> (Lz77Exception e, None)
                     | Inr (output_buffer, decoded_count) \<Rightarrow>
                         if decoded_count = original_size
                         then (Lz77Decompressed decoded_count, Some output_buffer)
                         else (Lz77SizeMismatch original_size decoded_count,
                               Some output_buffer))))"

section \<open>Notions used in the statements: bit strings and token bits\<close>

text \<open>
  These are not part of the program. \<open>bits_of n v\<close> is the \<open>n\<close> low bits of \<open>v\<close>,
  most significant first, which is the order both codecs write and read;
  \<open>stream_bits\<close> is the bit string of a list of bytes; \<open>state_bits\<close> is the bit
  string an accumulator state stands for.
\<close>

fun bits_of :: "nat \<Rightarrow> nat \<Rightarrow> nat list" where
  "bits_of 0 v = []"
| "bits_of (Suc i) v = (v div 2 ^ i) mod 2 # bits_of i v"

definition bits_value :: "nat list \<Rightarrow> nat" where
  "bits_value bs = foldl (\<lambda>a b. 2 * a + b) 0 bs"

definition byte_bits :: "nat \<Rightarrow> nat list" where
  "byte_bits b = map (bit_of_byte b) [0..<8]"

definition stream_bits :: "nat list \<Rightarrow> nat list" where
  "stream_bits bytes = concat (map byte_bits bytes)"

definition state_bits :: "pack_state \<Rightarrow> nat list" where
  "state_bits st = (case st of (buffer, bit_count, encoded_data) \<Rightarrow>
     stream_bits encoded_data @ bits_of bit_count buffer)"

definition pack_ok :: "pack_state \<Rightarrow> bool" where
  "pack_ok st = (case st of (buffer, bit_count, encoded_data) \<Rightarrow>
     bit_count < 8 \<and> buffer < 2 ^ bit_count)"

text \<open>The payload carries the bit string \<open>B\<close> followed by padding only.\<close>

definition carries :: "nat list \<Rightarrow> nat list \<Rightarrow> bool" where
  "carries cd B \<longleftrightarrow> length B \<le> 8 * length cd \<and> take (length B) (stream_bits cd) = B"

definition literal_bits :: "nat option \<Rightarrow> nat list" where
  "literal_bits lit = (case lit of Some v \<Rightarrow> bits_of 8 v | None \<Rightarrow> [])"

definition token_bits :: "token \<Rightarrow> nat list" where
  "token_bits tok =
     (case tok of
        (distance, len, next_literal) \<Rightarrow>
          if MIN_MATCH_LENGTH \<le> len
          then bits_of 1 1 @ bits_of 12 distance @ bits_of 4 (len - MIN_MATCH_LENGTH) @
               literal_bits next_literal
          else bits_of 1 0 @ literal_bits next_literal)"

text \<open>The byte values at the leaves the code generation visits.\<close>

fun leaf_bytes :: "HuffmanNode \<Rightarrow> nat set" where
  "leaf_bytes (HuffmanNode b f l r) =
     (case b of
        Some byte_val \<Rightarrow> {byte_val}
      | None \<Rightarrow>
          (case l of Some left_node \<Rightarrow> leaf_bytes left_node | None \<Rightarrow> {}) \<union>
          (case r of Some right_node \<Rightarrow> leaf_bytes right_node | None \<Rightarrow> {}))"

text \<open>
  \<open>path_to t code b\<close>: walking from the internal node \<open>t\<close> along \<open>code\<close>, left on
  the character 0 and right otherwise, ends at a leaf for \<open>b\<close> and meets no leaf
  before.
\<close>

fun path_to :: "HuffmanNode \<Rightarrow> string \<Rightarrow> nat \<Rightarrow> bool" where
  "path_to t [] b = (byte t = Some b)"
| "path_to t (c # cs) b =
     (byte t = None \<and>
      (case (if int_of_bit_char c = 0 then left t else right t) of
         None \<Rightarrow> False
       | Some n \<Rightarrow> path_to n cs b))"

definition prefix_free :: "(nat \<times> string) list \<Rightarrow> bool" where
  "prefix_free codes \<longleftrightarrow>
     (\<forall>b1 b2 c1 c2. map_of codes b1 = Some c1 \<and> map_of codes b2 = Some c2 \<and> b1 \<noteq> b2
        \<longrightarrow> \<not> prefix c1 c2)"

definition heap_leaves :: "HuffmanNode list \<Rightarrow> nat set" where
  "heap_leaves heap = (\<Union>t \<in> set heap. leaf_bytes t)"

definition table_bytes :: "(nat \<times> nat) list \<Rightarrow> nat list" where
  "table_bytes frequency = concat (map (\<lambda>(b, c). b # big_endian 4 c) frequency)"

text \<open>
  The two loops of the decoder, seen as one walk over a list of bits: the walk stops as
  soon as \<open>total_size\<close> bytes are out.
\<close>

fun walk_bits ::
  "HuffmanNode \<Rightarrow> nat \<Rightarrow> nat list \<Rightarrow> decode_state \<Rightarrow>
   (py_exception \<times> nat list) + decode_state" where
  "walk_bits root total_size [] st = Inr st"
| "walk_bits root total_size (bit_val # bits) (current_node, decoded_byte_count, out) =
     (if decoded_byte_count \<ge> total_size then Inr (current_node, decoded_byte_count, out)
      else
        (case (if bit_val = 0 then left current_node else right current_node) of
           None \<Rightarrow> Inl (AttributeError, out)
         | Some node \<Rightarrow>
             (case byte node of
                Some b \<Rightarrow>
                  (case to_bytes b 1 of
                     Inl e \<Rightarrow> Inl (e, out)
                   | Inr bs \<Rightarrow> walk_bits root total_size bits
                                 (root, decoded_byte_count + 1, out @ bs))
              | None \<Rightarrow> walk_bits root total_size bits (node, decoded_byte_count, out))))"

definition payload_bits :: "nat \<Rightarrow> nat list \<Rightarrow> nat list" where
  "payload_bits padding_bits bytes =
     (if bytes = [] then []
      else stream_bits (butlast bytes) @ take (8 - padding_bits) (byte_bits (last bytes)))"

definition code_bits :: "(nat \<times> string) list \<Rightarrow> nat list \<Rightarrow> nat list" where
  "code_bits codes data = concat (map (\<lambda>b. map int_of_bit_char (the (map_of codes b))) data)"

section \<open>Bit strings\<close>

lemma length_bits_of [simp]: "length (bits_of n v) = n"
  by (induction n) simp_all

lemma bits_of_lt2: "b \<in> set (bits_of n v) \<Longrightarrow> b < 2"
  by (induction n) auto

lemma bits_of_double: "b < 2 \<Longrightarrow> bits_of (Suc k) (2 * v + b) = bits_of k v @ [b]"
proof (induction k)
  case 0
  then show ?case by simp
next
  case (Suc k)
  have "(2 * v + b) div 2 ^ Suc k = v div 2 ^ k"
  proof -
    have "(2 * v + b) div 2 ^ Suc k = ((2 * v + b) div 2) div 2 ^ k"
      by (simp add: div_mult2_eq)
    also have "(2 * v + b) div 2 = v" using Suc.prems by simp
    finally show ?thesis .
  qed
  then show ?case using Suc by simp
qed

lemma bits_of_map: "map (\<lambda>i. (v div 2 ^ (n - Suc i)) mod 2) [0..<n] = bits_of n v"
proof (induction n)
  case 0
  then show ?case by simp
next
  case (Suc n)
  have "[0..<Suc n] = 0 # map Suc [0..<n]"
    by (simp add: upt_conv_Cons map_Suc_upt del: upt_Suc)
  then have "map (\<lambda>i. (v div 2 ^ (Suc n - Suc i)) mod 2) [0..<Suc n]
      = (v div 2 ^ n) mod 2 # map (\<lambda>i. (v div 2 ^ (n - Suc i)) mod 2) [0..<n]"
    by (simp add: comp_def del: upt_Suc)
  then show ?case using Suc by simp
qed

lemma byte_bits_eq: "byte_bits b = bits_of 8 b"
proof -
  have "map (\<lambda>i. (b div 2 ^ (8 - Suc i)) mod 2) [0..<8] = bits_of 8 b"
    by (rule bits_of_map)
  moreover have "(\<lambda>i. (b div 2 ^ (8 - Suc i)) mod 2) = bit_of_byte b"
    by (rule ext) (simp add: bit_of_byte_def)
  ultimately show ?thesis by (simp add: byte_bits_def)
qed

lemma length_byte_bits [simp]: "length (byte_bits b) = 8"
  by (simp add: byte_bits_def)

lemma length_stream_bits [simp]: "length (stream_bits bytes) = 8 * length bytes"
  by (induction bytes) (simp_all add: stream_bits_def)

lemma stream_bits_append [simp]:
  "stream_bits (xs @ ys) = stream_bits xs @ stream_bits ys"
  by (simp add: stream_bits_def)

lemma stream_bits_single [simp]: "stream_bits [b] = byte_bits b"
  by (simp add: stream_bits_def)

lemma stream_bits_nth:
  "k < 8 * length bytes \<Longrightarrow>
   stream_bits bytes ! k = bit_of_byte (bytes ! (k div 8)) (k mod 8)"
proof (induction bytes arbitrary: k)
  case Nil
  then show ?case by simp
next
  case (Cons b bytes)
  show ?case
  proof (cases "k < 8")
    case True
    then have "stream_bits (b # bytes) ! k = byte_bits b ! k"
      by (simp add: stream_bits_def nth_append)
    also have "\<dots> = bit_of_byte b k" using True by (simp add: byte_bits_def)
    finally show ?thesis using True by simp
  next
    case False
    then have k8: "8 \<le> k" by simp
    obtain j where j: "k = j + 8" using k8 by (metis le_add_diff_inverse2)
    have "stream_bits (b # bytes) ! k = stream_bits bytes ! j"
      using j by (simp add: stream_bits_def nth_append)
    also have "\<dots> = bit_of_byte (bytes ! (j div 8)) (j mod 8)"
      using Cons.prems j by (intro Cons.IH) simp
    finally have e: "stream_bits (b # bytes) ! k = bit_of_byte (bytes ! (j div 8)) (j mod 8)" .
    have "(j + 8) div 8 = Suc (j div 8)" by presburger
    then show ?thesis using e j by simp
  qed
qed

lemma pack_bit_ok:
  assumes "pack_ok st" and "b < 2"
  shows "pack_ok (pack_bit st b) \<and> state_bits (pack_bit st b) = state_bits st @ [b]"
proof -
  obtain buffer bit_count enc where st: "st = (buffer, bit_count, enc)" by (cases st)
  have ok: "bit_count < 8" "buffer < 2 ^ bit_count" using assms(1) st by (simp_all add: pack_ok_def)
  have d: "bits_of (Suc bit_count) (2 * buffer + b) = bits_of bit_count buffer @ [b]"
    by (rule bits_of_double[OF assms(2)])
  show ?thesis
  proof (cases "bit_count + 1 = 8")
    case True
    then have "bits_of 8 (2 * buffer + b) = bits_of bit_count buffer @ [b]"
      using d by simp
    then show ?thesis using True st
      by (simp add: pack_ok_def state_bits_def Let_def byte_bits_eq)
  next
    case False
    have "2 * buffer + b < 2 ^ (bit_count + 1)" using ok(2) assms(2) by simp
    then show ?thesis using False st ok d
      by (simp add: pack_ok_def state_bits_def Let_def)
  qed
qed

lemma foldl_pack_bit_ok:
  assumes "pack_ok st" and "\<forall>b \<in> set bs. b < 2"
  shows "pack_ok (foldl pack_bit st bs) \<and> state_bits (foldl pack_bit st bs) = state_bits st @ bs"
  using assms
proof (induction bs arbitrary: st)
  case Nil
  then show ?case by simp
next
  case (Cons b bs)
  have s: "pack_ok (pack_bit st b) \<and> state_bits (pack_bit st b) = state_bits st @ [b]"
    using Cons.prems by (intro pack_bit_ok) simp_all
  have "pack_ok (foldl pack_bit (pack_bit st b) bs) \<and>
        state_bits (foldl pack_bit (pack_bit st b) bs) = state_bits (pack_bit st b) @ bs"
    using s Cons.prems by (intro Cons.IH) simp_all
  then show ?case using s by simp
qed

lemma pack_and_write_to_mem_foldl:
  "pack_and_write_to_mem st v n = foldl pack_bit st (bits_of n v)"
  by (induction n arbitrary: st) simp_all

lemma pack_and_write_to_mem_ok:
  assumes "pack_ok st"
  shows "pack_ok (pack_and_write_to_mem st v n) \<and>
         state_bits (pack_and_write_to_mem st v n) = state_bits st @ bits_of n v"
  unfolding pack_and_write_to_mem_foldl
  using assms bits_of_lt2 by (intro foldl_pack_bit_ok) auto

lemma pack_ok_init [simp]: "pack_ok (0, 0, [])"
  by (simp add: pack_ok_def)

lemma state_bits_init [simp]: "state_bits (0, 0, []) = []"
  by (simp add: state_bits_def stream_bits_def)

lemma bits_of_shift:
  "v < 2 ^ k \<Longrightarrow> bits_of (k + p) (v * 2 ^ p) = bits_of k v @ replicate p 0"
proof (induction p)
  case 0
  then show ?case by simp
next
  case (Suc p)
  have "bits_of (Suc (k + p)) (2 * (v * 2 ^ p) + 0) = bits_of (k + p) (v * 2 ^ p) @ [0]"
    by (rule bits_of_double) simp
  then show ?case using Suc by (simp add: replicate_append_same mult.commute mult.left_commute)
qed

lemma finish_padding_ok:
  assumes "pack_ok st" and "finish_padding st = (padding_bits, encoded_data)"
  shows "padding_bits < 8 \<and>
         stream_bits encoded_data = state_bits st @ replicate padding_bits 0 \<and>
         length (state_bits st) + padding_bits = 8 * length encoded_data"
proof -
  obtain buffer bit_count enc where st: "st = (buffer, bit_count, enc)" by (cases st)
  have ok: "bit_count < 8" "buffer < 2 ^ bit_count" using assms(1) st by (simp_all add: pack_ok_def)
  show ?thesis
  proof (cases "bit_count > 0")
    case True
    have "bits_of (bit_count + (8 - bit_count)) (buffer * 2 ^ (8 - bit_count))
        = bits_of bit_count buffer @ replicate (8 - bit_count) 0"
      by (rule bits_of_shift[OF ok(2)])
    moreover have "bit_count + (8 - bit_count) = 8" using ok(1) by simp
    ultimately have "bits_of 8 (buffer * 2 ^ (8 - bit_count))
        = bits_of bit_count buffer @ replicate (8 - bit_count) 0" by simp
    then show ?thesis using True st assms(2) ok
      by (auto simp: state_bits_def byte_bits_eq)
  next
    case False
    then show ?thesis using st assms(2) ok by (auto simp: state_bits_def)
  qed
qed

lemma bits_value_snoc: "bits_value (bs @ [b]) = 2 * bits_value bs + b"
  by (simp add: bits_value_def)

lemma bits_value_bits_of: "v < 2 ^ n \<Longrightarrow> bits_value (bits_of n v) = v"
proof (induction n arbitrary: v)
  case 0
  then show ?case by (simp add: bits_value_def)
next
  case (Suc n)
  have "bits_of (Suc n) (2 * (v div 2) + v mod 2) = bits_of n (v div 2) @ [v mod 2]"
    by (rule bits_of_double) simp
  then have e: "bits_of (Suc n) v = bits_of n (v div 2) @ [v mod 2]" by simp
  have "v div 2 < 2 ^ n" using Suc.prems by (simp add: less_mult_imp_div_less mult.commute)
  then have "bits_value (bits_of n (v div 2)) = v div 2" by (rule Suc.IH)
  then show ?case unfolding e bits_value_snoc by simp
qed

section \<open>Integers as bytes\<close>

lemma length_big_endian [simp]: "length (big_endian k v) = k"
  by (induction k) simp_all

lemma big_endian_snoc: "big_endian (Suc k) v = big_endian k (v div 256) @ [v mod 256]"
proof (induction k)
  case 0
  then show ?case by simp
next
  case (Suc k)
  have "(v div 256) div 256 ^ k = v div 256 ^ Suc k"
    by (simp add: div_mult2_eq)
  then show ?case using Suc by simp
qed

lemma from_bytes_snoc: "from_bytes (bs @ [b]) = from_bytes bs * 256 + b"
  by (simp add: from_bytes_def)

lemma from_bytes_big_endian: "v < 256 ^ k \<Longrightarrow> from_bytes (big_endian k v) = v"
proof (induction k arbitrary: v)
  case 0
  then show ?case by (simp add: from_bytes_def)
next
  case (Suc k)
  have "v div 256 < 256 ^ k"
    using Suc.prems by (simp add: less_mult_imp_div_less mult.commute)
  then have "from_bytes (big_endian k (v div 256)) = v div 256" by (rule Suc.IH)
  then show ?case unfolding big_endian_snoc from_bytes_snoc by simp
qed

lemma big_endian_1: "v < 256 \<Longrightarrow> big_endian 1 v = [v]"
  by simp

lemma to_bytes_1: "v < 256 \<Longrightarrow> to_bytes v 1 = Inr [v]"
  by (simp add: to_bytes_def)

lemma from_bytes_single [simp]: "from_bytes [v] = v"
  by (simp add: from_bytes_def)

section \<open>Reading bits\<close>

lemma read_bits_loop_bits:
  "c + n \<le> 8 * length cd \<Longrightarrow>
   read_bits_loop cd n c r =
     (foldl (\<lambda>a b. 2 * a + b) r (take n (drop c (stream_bits cd))), c + n)"
proof (induction n arbitrary: c r)
  case 0
  then show ?case by simp
next
  case (Suc n)
  have c: "c < length (stream_bits cd)" using Suc.prems by simp
  have nth: "stream_bits cd ! c = bit_of_byte (cd ! (c div 8)) (c mod 8)"
    using Suc.prems by (intro stream_bits_nth) simp
  have "drop c (stream_bits cd) = stream_bits cd ! c # drop (Suc c) (stream_bits cd)"
    using c by (simp add: Cons_nth_drop_Suc)
  then have t: "take (Suc n) (drop c (stream_bits cd))
      = stream_bits cd ! c # take n (drop (Suc c) (stream_bits cd))"
    by simp
  have "read_bits_loop cd n (Suc c) (2 * r + stream_bits cd ! c)
      = (foldl (\<lambda>a b. 2 * a + b) (2 * r + stream_bits cd ! c)
           (take n (drop (Suc c) (stream_bits cd))), Suc c + n)"
    using Suc.prems by (intro Suc.IH) simp
  then show ?case unfolding t using nth by (simp add: Let_def)
qed

lemma drop_append_rest:
  assumes "drop c B = xs @ ys"
  shows "drop (c + length xs) B = ys"
proof -
  have "drop (c + length xs) B = drop (length xs) (drop c B)"
    by (simp add: add.commute)
  then show ?thesis using assms by simp
qed

lemma read_bits_at:
  assumes "carries cd B" and "drop c B = bs @ rest" and "bs \<noteq> []"
  shows "read_bits cd (int (length B)) c (length bs) = Some (bits_value bs, c + length bs)"
proof -
  have "length (drop c B) = length bs + length rest" using assms(2) by simp
  then have le: "c + length bs \<le> length B" using assms(3) by (cases bs) auto
  have le8: "c + length bs \<le> 8 * length cd" using le assms(1) by (simp add: carries_def)
  have "take (length bs) (drop c (stream_bits cd))
      = take (length bs) (drop c (take (length B) (stream_bits cd)))"
    using le by (simp add: drop_take)
  also have "\<dots> = take (length bs) (drop c B)" using assms(1) by (simp add: carries_def)
  also have "\<dots> = bs" using assms(2) by simp
  finally have t: "take (length bs) (drop c (stream_bits cd)) = bs" .
  show ?thesis
    using le read_bits_loop_bits[OF le8, of 0] t
    by (simp add: read_bits_def bits_value_def)
qed

lemma read_bits_of:
  assumes "carries cd B" and "drop c B = bits_of n v @ rest" and "0 < n" and "v < 2 ^ n"
  shows "read_bits cd (int (length B)) c n = Some (v, c + n)"
proof -
  have "bits_of n v \<noteq> []" using assms(3) by (cases n) simp_all
  then have "read_bits cd (int (length B)) c (length (bits_of n v))
      = Some (bits_value (bits_of n v), c + length (bits_of n v))"
    using assms(1,2) by (intro read_bits_at) 
  then show ?thesis using bits_value_bits_of[OF assms(4)] by simp
qed

section \<open>Properties of the match search\<close>

lemma match_length_loop_le:
  "match_length_loop w l idx limit j c \<le> c + (limit - j)"
proof (induction w l idx limit j c rule: match_length_loop.induct)
  case (1 w l idx limit j c)
  then show ?case
    by (subst match_length_loop.simps) auto
qed

lemma candidate_length_le_window:
  "candidate_length w l idx \<le> length w - idx"
  using match_length_loop_le[of w l idx "min (length l) (length w - idx)" 0 0]
  by (simp add: candidate_length_def)

lemma candidate_length_le_lookahead:
  "candidate_length w l idx \<le> length l"
  using match_length_loop_le[of w l idx "min (length l) (length w - idx)" 0 0]
  by (simp add: candidate_length_def)

lemma candidate_length_first_byte:
  "w ! idx \<noteq> l ! 0 \<Longrightarrow> candidate_length w l idx = 0"
  by (simp add: candidate_length_def match_length_loop.simps)

definition scan_post ::
  "nat list \<Rightarrow> nat list \<Rightarrow> nat \<Rightarrow> nat \<Rightarrow> nat \<Rightarrow> nat \<Rightarrow> nat \<Rightarrow> bool" where
  "scan_post w l idx m0 b0 m b \<longleftrightarrow>
     (\<forall>k. idx \<le> k \<and> k < length w \<longrightarrow> candidate_length w l k \<le> m) \<and>
     ((m = m0 \<and> b = b0) \<or>
      (m0 < m \<and> (\<exists>k. idx \<le> k \<and> k < length w \<and> b = length w - k \<and>
          candidate_length w l k = m \<and>
          (\<forall>j. idx \<le> j \<and> j < k \<longrightarrow> candidate_length w l j < m))))"

lemma scan_post_stop: "\<not> idx < length w \<Longrightarrow> scan_post w l idx m0 b0 m0 b0"
  by (simp add: scan_post_def)

lemma scan_post_skip:
  assumes "idx < length w" and "candidate_length w l idx \<le> m0"
    and "scan_post w l (idx + 1) m0 b0 m b"
  shows "scan_post w l idx m0 b0 m b"
proof -
  have le: "m0 \<le> m" using assms(3) by (auto simp: scan_post_def)
  have a: "\<forall>k. idx \<le> k \<and> k < length w \<longrightarrow> candidate_length w l k \<le> m"
  proof (intro allI impI)
    fix k assume k: "idx \<le> k \<and> k < length w"
    show "candidate_length w l k \<le> m"
    proof (cases "k = idx")
      case True then show ?thesis using assms(2) le by simp
    next
      case False
      then have "idx + 1 \<le> k" using k by simp
      then show ?thesis using assms(3) k by (simp add: scan_post_def)
    qed
  qed
  from assms(3) have "(m = m0 \<and> b = b0) \<or>
      (m0 < m \<and> (\<exists>k. idx + 1 \<le> k \<and> k < length w \<and> b = length w - k \<and>
          candidate_length w l k = m \<and>
          (\<forall>j. idx + 1 \<le> j \<and> j < k \<longrightarrow> candidate_length w l j < m)))"
    by (simp add: scan_post_def)
  then show ?thesis
  proof
    assume "m = m0 \<and> b = b0"
    then show ?thesis using a by (simp add: scan_post_def)
  next
    assume r: "m0 < m \<and> (\<exists>k. idx + 1 \<le> k \<and> k < length w \<and> b = length w - k \<and>
          candidate_length w l k = m \<and>
          (\<forall>j. idx + 1 \<le> j \<and> j < k \<longrightarrow> candidate_length w l j < m))"
    then obtain k where k: "idx + 1 \<le> k" "k < length w" "b = length w - k"
      "candidate_length w l k = m"
      "\<forall>j. idx + 1 \<le> j \<and> j < k \<longrightarrow> candidate_length w l j < m"
      by blast
    have "\<forall>j. idx \<le> j \<and> j < k \<longrightarrow> candidate_length w l j < m"
    proof (intro allI impI)
      fix j assume j: "idx \<le> j \<and> j < k"
      show "candidate_length w l j < m"
      proof (cases "j = idx")
        case True then show ?thesis using assms(2) r by simp
      next
        case False
        then have "idx + 1 \<le> j" using j by simp
        then show ?thesis using k(5) j by simp
      qed
    qed
    moreover have "idx \<le> k" using k(1) by simp
    ultimately show ?thesis using a r k unfolding scan_post_def by blast
  qed
qed

lemma scan_post_take:
  assumes "idx < length w" and "m0 < candidate_length w l idx"
    and "scan_post w l (idx + 1) (candidate_length w l idx) (length w - idx) m b"
  shows "scan_post w l idx m0 b0 m b"
proof -
  let ?c = "candidate_length w l idx"
  have le: "?c \<le> m" using assms(3) by (auto simp: scan_post_def)
  have a: "\<forall>k. idx \<le> k \<and> k < length w \<longrightarrow> candidate_length w l k \<le> m"
  proof (intro allI impI)
    fix k assume k: "idx \<le> k \<and> k < length w"
    show "candidate_length w l k \<le> m"
    proof (cases "k = idx")
      case True then show ?thesis using le by simp
    next
      case False
      then have "idx + 1 \<le> k" using k by simp
      then show ?thesis using assms(3) k by (simp add: scan_post_def)
    qed
  qed
  from assms(3) have "(m = ?c \<and> b = length w - idx) \<or>
      (?c < m \<and> (\<exists>k. idx + 1 \<le> k \<and> k < length w \<and> b = length w - k \<and>
          candidate_length w l k = m \<and>
          (\<forall>j. idx + 1 \<le> j \<and> j < k \<longrightarrow> candidate_length w l j < m)))"
    by (simp add: scan_post_def)
  then show ?thesis
  proof
    assume e: "m = ?c \<and> b = length w - idx"
    have "idx \<le> idx \<and> idx < length w \<and> b = length w - idx \<and>
          candidate_length w l idx = m \<and>
          (\<forall>j. idx \<le> j \<and> j < idx \<longrightarrow> candidate_length w l j < m)"
      using e assms(1) by simp
    then show ?thesis using a assms(2) e unfolding scan_post_def by blast
  next
    assume r: "?c < m \<and> (\<exists>k. idx + 1 \<le> k \<and> k < length w \<and> b = length w - k \<and>
          candidate_length w l k = m \<and>
          (\<forall>j. idx + 1 \<le> j \<and> j < k \<longrightarrow> candidate_length w l j < m))"
    then obtain k where k: "idx + 1 \<le> k" "k < length w" "b = length w - k"
      "candidate_length w l k = m"
      "\<forall>j. idx + 1 \<le> j \<and> j < k \<longrightarrow> candidate_length w l j < m"
      by blast
    have "\<forall>j. idx \<le> j \<and> j < k \<longrightarrow> candidate_length w l j < m"
    proof (intro allI impI)
      fix j assume j: "idx \<le> j \<and> j < k"
      show "candidate_length w l j < m"
      proof (cases "j = idx")
        case True then show ?thesis using r by simp
      next
        case False
        then have "idx + 1 \<le> j" using j by simp
        then show ?thesis using k(5) j by simp
      qed
    qed
    moreover have "idx \<le> k" using k(1) by simp
    moreover have "m0 < m" using assms(2) r by simp
    ultimately show ?thesis using a k unfolding scan_post_def by blast
  qed
qed

lemma scan_window_post:
  "scan_window w l idx m0 b0 = (m, b) \<Longrightarrow> scan_post w l idx m0 b0 m b"
proof (induction w l idx m0 b0 rule: scan_window.induct)
  case (1 w l idx m0 b0)
  show ?case
  proof (cases "idx < length w")
    case False
    then show ?thesis using "1.prems" by (subst (asm) scan_window.simps) (simp add: scan_post_stop)
  next
    case True
    note inr = True
    show ?thesis
    proof (cases "w ! idx \<noteq> l ! 0")
      case True
      then have "scan_window w l (idx + 1) m0 b0 = (m, b)"
        using "1.prems" inr True by (subst (asm) scan_window.simps) simp
      then have "scan_post w l (idx + 1) m0 b0 m b"
        using "1.IH"(1) inr True by simp
      moreover have "candidate_length w l idx \<le> m0"
        using True by (simp add: candidate_length_first_byte)
      ultimately show ?thesis using inr by (rule_tac scan_post_skip) 
    next
      case False
      note eq = False
      show ?thesis
      proof (cases "m0 < candidate_length w l idx")
        case True
        then have "scan_window w l (idx + 1) (candidate_length w l idx) (length w - idx) = (m, b)"
          using "1.prems" inr eq True by (subst (asm) scan_window.simps) (simp add: Let_def)
        then have "scan_post w l (idx + 1) (candidate_length w l idx) (length w - idx) m b"
          using "1.IH"(2)[OF inr _ refl] inr eq True by simp
        then show ?thesis using inr True by (rule_tac scan_post_take)
      next
        case False
        then have "scan_window w l (idx + 1) m0 b0 = (m, b)"
          using "1.prems" inr eq False by (subst (asm) scan_window.simps) (simp add: Let_def)
        then have "scan_post w l (idx + 1) m0 b0 m b"
          using "1.IH"(3)[OF inr _ refl] inr eq False by simp
        moreover have "candidate_length w l idx \<le> m0" using False by simp
        ultimately show ?thesis using inr by (rule_tac scan_post_skip)
      qed
    qed
  qed
qed

lemma find_longest_match_scan:
  assumes "find_longest_match w l = (d, n)" and "0 < n"
  shows "scan_window w l 0 0 0 = (n, d) \<and> MIN_MATCH_LENGTH \<le> n"
  using assms
  by (auto simp: find_longest_match_def split: if_splits prod.splits)


text \<open>
  Claim C6. In the match search only a strictly greater candidate length replaces the
  current best. So whenever a match is reported, its distance points at the smallest
  window index (the largest distance) whose candidate length is the maximum over the
  whole window: every index has a candidate length at most the reported one, and every
  index before the kept one has a strictly smaller candidate length.
\<close>

theorem find_longest_match_keeps_first_longest:
  assumes "find_longest_match window lookahead = (distance, len)" and "0 < len"
  shows "0 < distance \<and> distance \<le> length window \<and>
         candidate_length window lookahead (length window - distance) = len \<and>
         (\<forall>j. j < length window \<longrightarrow> candidate_length window lookahead j \<le> len) \<and>
         (\<forall>j. j < length window - distance \<longrightarrow> candidate_length window lookahead j < len)"
proof -
  have s: "scan_window window lookahead 0 0 0 = (len, distance)"
    using find_longest_match_scan[OF assms] by simp
  have p: "scan_post window lookahead 0 0 0 len distance"
    by (rule scan_window_post[OF s])
  then obtain k where k: "k < length window" "distance = length window - k"
      "candidate_length window lookahead k = len"
      "\<forall>j. j < k \<longrightarrow> candidate_length window lookahead j < len"
    using assms(2) unfolding scan_post_def by auto
  have kk: "length window - distance = k" using k(1,2) by simp
  have "\<forall>j. j < length window \<longrightarrow> candidate_length window lookahead j \<le> len"
    using p unfolding scan_post_def by simp
  then show ?thesis using k kk by simp
qed

lemma find_longest_match_length_le_distance:
  assumes "find_longest_match w l = (d, n)"
  shows "n \<le> d"
proof (cases "0 < n")
  case False then show ?thesis by simp
next
  case True
  have s: "scan_window w l 0 0 0 = (n, d)"
    using find_longest_match_scan[OF assms True] by simp
  have "scan_post w l 0 0 0 n d" by (rule scan_window_post[OF s])
  then obtain k where k: "k < length w" "d = length w - k" "candidate_length w l k = n"
    using True unfolding scan_post_def by auto
  then show ?thesis using candidate_length_le_window[of w l k] by simp
qed

lemma encode_from_tokens:
  "t \<in> set (encode_from data i) \<Longrightarrow> \<exists>p. i \<le> p \<and> p < length data \<and> t = token_at data p"
proof (induction data i rule: encode_from.induct)
  case (1 data i)
  show ?case
  proof (cases "i < length data")
    case False
    then show ?thesis using "1.prems" by (simp add: encode_from.simps)
  next
    case True
    then have "t = token_at data i \<or> t \<in> set (encode_from data (i + token_advance data i))"
      using "1.prems" by (subst (asm) encode_from.simps) auto
    then show ?thesis
    proof
      assume "t = token_at data i" then show ?thesis using True by blast
    next
      assume "t \<in> set (encode_from data (i + token_advance data i))"
      then obtain p where "i + token_advance data i \<le> p \<and> p < length data \<and> t = token_at data p"
        using "1.IH"[OF True] by blast
      then show ?thesis by (intro exI[of _ p]) simp
    qed
  qed
qed

text \<open>
  Claim C10. Every Match token emitted by the compressor has length at most its
  distance: the candidate length at a window index is capped by the number of window
  bytes from that index to the end of the window, which is the distance recorded.
\<close>

theorem match_tokens_never_self_overlap:
  assumes "(distance, len, next_literal) \<in> set (encode_lz77 data)"
    and "MIN_MATCH_LENGTH \<le> len"
  shows "len \<le> distance"
proof -
  obtain p where p: "(distance, len, next_literal) = token_at data p"
    using encode_from_tokens assms(1) unfolding encode_lz77_def by blast
  obtain d n where f: "find_longest_match (search_window_at data p) (lookahead_at data p) = (d, n)"
    by (cases "find_longest_match (search_window_at data p) (lookahead_at data p)")
  have "n \<le> d" by (rule find_longest_match_length_le_distance[OF f])
  then show ?thesis using p f assms(2)
    by (auto simp: token_at_def Let_def MIN_MATCH_LENGTH_def split: if_splits)
qed

section \<open>What a token says about the data\<close>

lemma match_length_loop_agrees:
  "match_length_loop w la idx limit j c = c' \<Longrightarrow>
   c \<le> c' \<and> c' - c \<le> limit - j \<and> (\<forall>t < c' - c. w ! (idx + j + t) = la ! (j + t))"
proof (induction w la idx limit j c rule: match_length_loop.induct)
  case (1 w la idx limit j c)
  show ?case
  proof (cases "j < limit \<and> w ! (idx + j) = la ! j")
    case True
    then have r: "match_length_loop w la idx limit (j + 1) (c + 1) = c'"
      using "1.prems" by (subst (asm) match_length_loop.simps) simp
    have ih: "c + 1 \<le> c' \<and> c' - (c + 1) \<le> limit - (j + 1) \<and>
        (\<forall>t < c' - (c + 1). w ! (idx + (j + 1) + t) = la ! (j + 1 + t))"
      using "1.IH"[OF _ _ r] True by simp
    have "\<forall>t < c' - c. w ! (idx + j + t) = la ! (j + t)"
    proof (intro allI impI)
      fix t assume t: "t < c' - c"
      show "w ! (idx + j + t) = la ! (j + t)"
      proof (cases t)
        case 0
        then show ?thesis using True by simp
      next
        case (Suc t')
        then have "t' < c' - (c + 1)" using t by simp
        then have "w ! (idx + (j + 1) + t') = la ! (j + 1 + t')" using ih by blast
        then show ?thesis using Suc by simp
      qed
    qed
    moreover have "c \<le> c'" using ih by simp
    moreover have "c' - c \<le> limit - j" using ih True by linarith
    ultimately show ?thesis by blast
  next
    case False
    then have "c' = c"
      using "1.prems" by (subst (asm) match_length_loop.simps) (auto split: if_splits)
    then show ?thesis by simp
  qed
qed

lemma candidate_length_agrees:
  "t < candidate_length w la k \<Longrightarrow> w ! (k + t) = la ! t"
  using match_length_loop_agrees[of w la k "min (length la) (length w - k)" 0 0
      "candidate_length w la k"]
  by (simp add: candidate_length_def)

lemma find_longest_match_sound:
  assumes "find_longest_match w la = (d, n)" and "0 < n"
  shows "MIN_MATCH_LENGTH \<le> n \<and> n \<le> length la \<and> 0 < d \<and> d \<le> length w \<and> n \<le> d \<and>
         (\<forall>t < n. w ! (length w - d + t) = la ! t)"
proof -
  have s: "scan_window w la 0 0 0 = (n, d)" and m: "MIN_MATCH_LENGTH \<le> n"
    using find_longest_match_scan[OF assms] by simp_all
  have "scan_post w la 0 0 0 n d" by (rule scan_window_post[OF s])
  then obtain k where k: "k < length w" "d = length w - k" "candidate_length w la k = n"
    using assms(2) unfolding scan_post_def by auto
  have kk: "length w - d = k" using k(1,2) by simp
  have "\<forall>t < n. w ! (k + t) = la ! t"
    using candidate_length_agrees[of _ w la k] k(3) by simp
  then show ?thesis
    using m k kk candidate_length_le_lookahead[of w la k] candidate_length_le_window[of w la k]
    by simp
qed

lemma find_longest_match_zero:
  "find_longest_match w la = (d, n) \<Longrightarrow> \<not> 0 < n \<Longrightarrow> d = 0"
  by (auto simp: find_longest_match_def MIN_MATCH_LENGTH_def split: if_splits prod.splits)

text \<open>A Match token at position \<open>i\<close> repeats bytes that stand \<open>distance\<close> before.\<close>

lemma token_at_match:
  assumes "i < length data"
    and "find_longest_match (search_window_at data i) (lookahead_at data i) = (d, n)"
    and "MIN_MATCH_LENGTH \<le> n"
  shows "n \<le> LOOKAHEAD_SIZE \<and> 0 < d \<and> d \<le> i \<and> d \<le> SEARCH_WINDOW_SIZE \<and>
         i + n \<le> length data \<and> (\<forall>t < n. data ! (i - d + t) = data ! (i + t))"
proof -
  let ?w = "search_window_at data i" and ?la = "lookahead_at data i"
  have n0: "0 < n" using assms(3) by (simp add: MIN_MATCH_LENGTH_def)
  have s: "n \<le> length ?la" "0 < d" "d \<le> length ?w" "\<forall>t < n. ?w ! (length ?w - d + t) = ?la ! t"
    using find_longest_match_sound[OF assms(2) n0] by blast+
  have lw: "length ?w = i - (i - SEARCH_WINDOW_SIZE)"
    using assms(1) by (simp add: search_window_at_def)
  have lla: "length ?la = min (i + LOOKAHEAD_SIZE) (length data) - i"
    by (simp add: lookahead_at_def min.commute)
  have b1: "d \<le> i" "d \<le> SEARCH_WINDOW_SIZE" using s(3) lw by simp_all
  have b2: "n \<le> LOOKAHEAD_SIZE" "i + n \<le> length data" using s(1) lla n0 by auto
  have "\<forall>t < n. data ! (i - d + t) = data ! (i + t)"
  proof (intro allI impI)
    fix t assume t: "t < n"
    have e: "?w ! (length ?w - d + t) = ?la ! t" using s(4) t by blast
    have "n \<le> d" using find_longest_match_length_le_distance[OF assms(2)] .
    then have in_w: "length ?w - d + t < length ?w" using t s(2,3) by simp
    have "?w ! (length ?w - d + t) = take i data ! ((i - SEARCH_WINDOW_SIZE) + (length ?w - d + t))"
      unfolding search_window_at_def using assms(1) by (intro nth_drop) simp
    also have "(i - SEARCH_WINDOW_SIZE) + (length ?w - d + t) = i - d + t"
      using lw s(3) by simp
    also have "take i data ! (i - d + t) = data ! (i - d + t)"
      using in_w lw s(3) by (intro nth_take) simp
    finally have l: "?w ! (length ?w - d + t) = data ! (i - d + t)" .
    have "t < length ?la" using t s(1) by simp
    then have "?la ! t = take (i + LOOKAHEAD_SIZE) data ! (i + t)"
      unfolding lookahead_at_def using assms(1) by (intro nth_drop) simp
    also have "\<dots> = data ! (i + t)"
      using \<open>t < length ?la\<close> lla by (intro nth_take) simp
    finally show "data ! (i - d + t) = data ! (i + t)" using e l by simp
  qed
  then show ?thesis using b1 b2 s(2) by simp
qed

section \<open>The bits of a token\<close>

lemma pack_token_bits:
  assumes "pack_ok st" and "MIN_MATCH_LENGTH \<le> len \<or> lit \<noteq> None"
  shows "\<exists>st'. pack_token st (d, len, lit) = Inr st' \<and> pack_ok st' \<and>
           state_bits st' = state_bits st @ token_bits (d, len, lit)"
proof (cases "MIN_MATCH_LENGTH \<le> len")
  case True
  let ?s1 = "pack_and_write_to_mem st 1 1"
  let ?s2 = "pack_and_write_to_mem ?s1 d 12"
  let ?s3 = "pack_and_write_to_mem ?s2 (len - MIN_MATCH_LENGTH) 4"
  have s1: "pack_ok ?s1" "state_bits ?s1 = state_bits st @ bits_of 1 1"
    using pack_and_write_to_mem_ok[OF assms(1), of 1 1] by simp_all
  have s2: "pack_ok ?s2" "state_bits ?s2 = state_bits ?s1 @ bits_of 12 d"
    using pack_and_write_to_mem_ok[OF s1(1), of d 12] by simp_all
  have s3: "pack_ok ?s3" "state_bits ?s3 = state_bits ?s2 @ bits_of 4 (len - MIN_MATCH_LENGTH)"
    using pack_and_write_to_mem_ok[OF s2(1), of "len - MIN_MATCH_LENGTH" 4] by simp_all
  show ?thesis
  proof (cases lit)
    case None
    then show ?thesis using True s1 s2 s3
      by (simp add: pack_token_def Let_def token_bits_def literal_bits_def)
  next
    case (Some v)
    have "pack_ok (pack_and_write_to_mem ?s3 v 8)"
      "state_bits (pack_and_write_to_mem ?s3 v 8) = state_bits ?s3 @ bits_of 8 v"
      using pack_and_write_to_mem_ok[OF s3(1), of v 8] by simp_all
    then show ?thesis using True Some s1 s2 s3
      by (simp add: pack_token_def Let_def token_bits_def literal_bits_def)
  qed
next
  case False
  then obtain v where v: "lit = Some v" using assms(2) by auto
  let ?s1 = "pack_and_write_to_mem st 0 1"
  have s1: "pack_ok ?s1" "state_bits ?s1 = state_bits st @ bits_of 1 0"
    using pack_and_write_to_mem_ok[OF assms(1), of 0 1] by simp_all
  have "pack_ok (pack_and_write_to_mem ?s1 v 8)"
    "state_bits (pack_and_write_to_mem ?s1 v 8) = state_bits ?s1 @ bits_of 8 v"
    using pack_and_write_to_mem_ok[OF s1(1), of v 8] by simp_all
  then show ?thesis using False v s1
    by (simp add: pack_token_def Let_def token_bits_def literal_bits_def)
qed

lemma pack_tokens_bits:
  assumes "pack_ok st"
    and "\<forall>(d, len, lit) \<in> set toks. MIN_MATCH_LENGTH \<le> len \<or> lit \<noteq> None"
  shows "\<exists>st'. pack_tokens st toks = Inr st' \<and> pack_ok st' \<and>
           state_bits st' = state_bits st @ concat (map token_bits toks)"
  using assms
proof (induction toks arbitrary: st)
  case Nil
  then show ?case by simp
next
  case (Cons tok toks)
  obtain d len lit where tok: "tok = (d, len, lit)" by (cases tok)
  have "MIN_MATCH_LENGTH \<le> len \<or> lit \<noteq> None" using Cons.prems(2) tok by simp
  then obtain st1 where st1: "pack_token st (d, len, lit) = Inr st1" "pack_ok st1"
      "state_bits st1 = state_bits st @ token_bits (d, len, lit)"
    using pack_token_bits[OF Cons.prems(1)] by blast
  obtain st' where "pack_tokens st1 toks = Inr st'" "pack_ok st'"
      "state_bits st' = state_bits st1 @ concat (map token_bits toks)"
    using Cons.IH[OF st1(2)] Cons.prems(2) by auto
  then show ?case using st1 tok by simp
qed

lemma token_at_has_literal:
  "token_at data i = (d, len, lit) \<Longrightarrow> MIN_MATCH_LENGTH \<le> len \<or> lit \<noteq> None"
  by (auto simp: token_at_def Let_def split: prod.splits if_splits)

lemma encode_from_has_literal:
  "\<forall>(d, len, lit) \<in> set (encode_from data i). MIN_MATCH_LENGTH \<le> len \<or> lit \<noteq> None"
proof -
  { fix d len lit assume "(d, len, lit) \<in> set (encode_from data i)"
    then obtain p where "(d, len, lit) = token_at data p" using encode_from_tokens by blast
    then have "MIN_MATCH_LENGTH \<le> len \<or> lit \<noteq> None"
      using token_at_has_literal[of data p d len lit] by simp }
  then show ?thesis by auto
qed

section \<open>The decoder on the bits of a token\<close>

lemma copy_match_repeats:
  assumes "i + n \<le> length data" and "0 < d" and "d \<le> i"
    and "\<forall>t < n. data ! (i - d + t) = data ! (i + t)"
  shows "copy_match n (length data) (take i data, i - d, i) = Inr (take (i + n) data, i + n)"
  using assms
proof (induction n arbitrary: i)
  case 0
  then show ?case by simp
next
  case (Suc n)
  have i: "i < length data" using Suc.prems(1) by simp
  have sc: "i - d < length (take i data)" using i Suc.prems(2,3) by simp
  have "take i data ! (i - d) = data ! (i - d)" using Suc.prems(2,3) by simp
  also have "\<dots> = data ! i" using Suc.prems(4) by (metis add.right_neutral zero_less_Suc)
  finally have nth: "take i data ! (i - d) = data ! i" .
  have app: "take i data @ [data ! i] = take (Suc i) data"
    using i by (simp add: take_Suc_conv_app_nth)
  have "\<forall>t < n. data ! (Suc i - d + t) = data ! (Suc i + t)"
  proof (intro allI impI)
    fix t assume "t < n"
    then have "Suc t < Suc n" by simp
    then have a: "data ! (i - d + Suc t) = data ! (i + Suc t)" using Suc.prems(4) by blast
    have b: "i - d + Suc t = Suc i - d + t" using Suc.prems(3) by simp
    have c: "i + Suc t = Suc i + t" by simp
    show "data ! (Suc i - d + t) = data ! (Suc i + t)" using a unfolding b c .
  qed
  then have ih: "copy_match n (length data) (take (Suc i) data, Suc i - d, Suc i)
      = Inr (take (Suc i + n) data, Suc i + n)"
    using Suc.prems by (intro Suc.IH) simp_all
  have "Suc (i - d) = Suc i - d" using Suc.prems(3) by simp
  then show ?case using i sc nth app ih by simp
qed

lemma bits_of_1: "v < 2 \<Longrightarrow> bits_of 1 v = [v]"
  by simp

lemma decode_step_token:
  assumes car: "carries cd B" and i: "i < length data"
    and bytes: "\<forall>b \<in> set data. b < 256"
    and bits: "drop c B = token_bits (token_at data i) @ rest"
  shows "decode_step cd (int (length B)) (length data) (c, take i data, i) =
           end_of_body (length data)
             (c + length (token_bits (token_at data i)),
              take (i + token_advance data i) data, i + token_advance data i)"
proof -
  let ?N = "length data" and ?L = "int (length B)"
  obtain d n where f: "find_longest_match (search_window_at data i) (lookahead_at data i) = (d, n)"
    by (cases "find_longest_match (search_window_at data i) (lookahead_at data i)")
  have byte_i: "\<And>p. p < ?N \<Longrightarrow> data ! p < 256" using bytes by simp
  show ?thesis
  proof (cases "MIN_MATCH_LENGTH \<le> n")
    case False
    have tok: "token_at data i = (0, 0, Some (data ! i))" and adv: "token_advance data i = 1"
      using f False by (simp_all add: token_at_def token_advance_def)
    have tb: "token_bits (token_at data i) = bits_of 1 0 @ bits_of 8 (data ! i)"
      using tok by (simp add: token_bits_def literal_bits_def MIN_MATCH_LENGTH_def)
    have b0: "drop c B = bits_of 1 0 @ (bits_of 8 (data ! i) @ rest)" using bits tb by simp
    have r0: "read_bits cd ?L c 1 = Some (0, c + 1)"
      by (rule read_bits_of[OF car b0]) simp_all
    have b1: "drop (c + 1) B = bits_of 8 (data ! i) @ rest"
      using drop_append_rest[OF b0] by simp
    have r1: "read_bits cd ?L (c + 1) 8 = Some (data ! i, c + 1 + 8)"
      using byte_i[OF i] by (intro read_bits_of[OF car b1]) simp_all
    have app: "take i data @ [data ! i] = take (Suc i) data"
      using i by (simp add: take_Suc_conv_app_nth)
    show ?thesis using r0 r1 app tb adv by (simp add: decode_step_def ac_simps)
  next
    case True
    have m: "n \<le> LOOKAHEAD_SIZE" "0 < d" "d \<le> i" "d \<le> SEARCH_WINDOW_SIZE"
        "i + n \<le> ?N" "\<forall>t < n. data ! (i - d + t) = data ! (i + t)"
      using token_at_match[OF i f True] by blast+
    define lit where "lit = (if i + n < ?N then Some (data ! (i + n)) else None)"
    have tok: "token_at data i = (d, n, lit)"
      and adv: "token_advance data i = n + (if i + n < ?N then 1 else 0)"
      using f True by (simp_all add: token_at_def token_advance_def lit_def)
    have tb: "token_bits (token_at data i) =
        bits_of 1 1 @ bits_of 12 d @ bits_of 4 (n - MIN_MATCH_LENGTH) @ literal_bits lit"
      using tok True by (simp add: token_bits_def)
    have b0: "drop c B = bits_of 1 1 @ (bits_of 12 d @ bits_of 4 (n - MIN_MATCH_LENGTH) @
        literal_bits lit @ rest)" using bits tb by simp
    have r0: "read_bits cd ?L c 1 = Some (1, c + 1)"
      by (rule read_bits_of[OF car b0]) simp_all
    have b1: "drop (c + 1) B = bits_of 12 d @ (bits_of 4 (n - MIN_MATCH_LENGTH) @
        literal_bits lit @ rest)"
      using drop_append_rest[OF b0] by simp
    have "d < 2 ^ 12" using m(4) by (simp add: SEARCH_WINDOW_SIZE_def)
    then have r1: "read_bits cd ?L (c + 1) 12 = Some (d, c + 1 + 12)"
      by (intro read_bits_of[OF car b1]) simp_all
    have b2: "drop (c + 1 + 12) B = bits_of 4 (n - MIN_MATCH_LENGTH) @ (literal_bits lit @ rest)"
      using drop_append_rest[OF b1] by simp
    have "n - MIN_MATCH_LENGTH < 2 ^ 4" using m(1) by (simp add: LOOKAHEAD_SIZE_def)
    then have r2: "read_bits cd ?L (c + 1 + 12) 4 = Some (n - MIN_MATCH_LENGTH, c + 1 + 12 + 4)"
      by (intro read_bits_of[OF car b2]) simp_all
    have b3: "drop (c + 1 + 12 + 4) B = literal_bits lit @ rest"
      using drop_append_rest[OF b2] by simp
    have len: "n - MIN_MATCH_LENGTH + MIN_MATCH_LENGTH = n" using True by simp
    have cp: "copy_match n ?N (take i data, i - d, i) = Inr (take (i + n) data, i + n)"
      by (rule copy_match_repeats[OF m(5) m(2) m(3) m(6)])
    have dist: "\<not> (d = 0 \<or> length (take i data) < d)" using m(2,3) i by simp
    have li: "length (take i data) = i" using i by simp
    show ?thesis
    proof (cases "i + n < ?N")
      case True
      then have lit: "lit = Some (data ! (i + n))" by (simp add: lit_def)
      have b3': "drop (c + 1 + 12 + 4) B = bits_of 8 (data ! (i + n)) @ rest"
        using b3 lit by (simp add: literal_bits_def)
      have r3: "read_bits cd ?L (c + 1 + 12 + 4) 8 = Some (data ! (i + n), c + 1 + 12 + 4 + 8)"
        using byte_i[OF True] by (intro read_bits_of[OF car b3']) simp_all
      have app: "take (i + n) data @ [data ! (i + n)] = take (Suc (i + n)) data"
        using True by (simp add: take_Suc_conv_app_nth)
      have ca: "copy_and_append ?N d n (Some (data ! (i + n))) (c + 1 + 12 + 4 + 8, take i data, i)
          = end_of_body ?N (c + 1 + 12 + 4 + 8, take (Suc (i + n)) data, Suc (i + n))"
        using dist cp True app li by (simp add: copy_and_append_def Let_def)
      have "decode_match cd ?L ?N (c + 1, take i data, i)
          = end_of_body ?N (c + 1 + 12 + 4 + 8, take (Suc (i + n)) data, Suc (i + n))"
        using r1 r2 r3 len True ca by (simp add: decode_match_def Let_def)
      moreover have "length (token_bits (token_at data i)) = 1 + 12 + 4 + 8"
        using tb lit by (simp add: literal_bits_def)
      ultimately show ?thesis using r0 adv True by (simp add: decode_step_def ac_simps)
    next
      case False
      then have lit: "lit = None" by (simp add: lit_def)
      have ca: "copy_and_append ?N d n None (c + 1 + 12 + 4, take i data, i)
          = end_of_body ?N (c + 1 + 12 + 4, take (i + n) data, i + n)"
        using dist cp li by (simp add: copy_and_append_def Let_def)
      have "decode_match cd ?L ?N (c + 1, take i data, i)
          = end_of_body ?N (c + 1 + 12 + 4, take (i + n) data, i + n)"
        using r1 r2 len False ca by (simp add: decode_match_def Let_def)
      moreover have "length (token_bits (token_at data i)) = 1 + 12 + 4"
        using tb lit by (simp add: literal_bits_def)
      ultimately show ?thesis using r0 adv False by (simp add: decode_step_def ac_simps)
    qed
  qed
qed

lemma token_advance_within:
  "i < length data \<Longrightarrow> i + token_advance data i \<le> length data"
proof -
  assume i: "i < length data"
  obtain d n where f: "find_longest_match (search_window_at data i) (lookahead_at data i) = (d, n)"
    by (cases "find_longest_match (search_window_at data i) (lookahead_at data i)")
  show ?thesis
  proof (cases "MIN_MATCH_LENGTH \<le> n")
    case True
    then have "i + n \<le> length data" using token_at_match[OF i f True] by blast
    then show ?thesis using f True by (simp add: token_advance_def)
  next
    case False
    then show ?thesis using f i by (simp add: token_advance_def)
  qed
qed

lemma decode_loop_tokens:
  assumes "carries cd B"
  shows "\<forall>b \<in> set data. b < 256 \<Longrightarrow> i \<le> length data \<Longrightarrow>
         drop c B = concat (map token_bits (encode_from data i)) \<Longrightarrow>
         decode_loop cd (int (length B)) (length data) (c, take i data, i)
           = Inr (data, length data)"
proof (induction data i arbitrary: c rule: encode_from.induct)
  case (1 data i)
  show ?case
  proof (cases "i < length data")
    case False
    then have "i = length data" using "1.prems"(2) by simp
    then show ?thesis by (subst decode_loop.simps) simp
  next
    case True
    let ?i' = "i + token_advance data i"
    let ?c' = "c + length (token_bits (token_at data i))"
    have e: "encode_from data i = token_at data i # encode_from data ?i'"
      using True by (subst encode_from.simps) simp
    have bits: "drop c B = token_bits (token_at data i) @ concat (map token_bits (encode_from data ?i'))"
      using "1.prems"(3) e by simp
    have step: "decode_step cd (int (length B)) (length data) (c, take i data, i) =
        end_of_body (length data) (?c', take ?i' data, ?i')"
      by (rule decode_step_token[OF assms(1) True "1.prems"(1) bits])
    have le: "?i' \<le> length data" by (rule token_advance_within[OF True])
    show ?thesis
    proof (cases "?i' < length data")
      case False
      then have "?i' = length data" using le by simp
      then show ?thesis using True step
        by (subst decode_loop.simps) (simp add: end_of_body_def)
    next
      case lt: True
      have "decode_loop cd (int (length B)) (length data) (?c', take ?i' data, ?i')
          = Inr (data, length data)"
        using "1.IH"[OF True "1.prems"(1) le drop_append_rest[OF bits]] .
      then show ?thesis using True lt step
        by (subst decode_loop.simps) (simp add: end_of_body_def)
    qed
  qed
qed

section \<open>LZ77: compress, then decompress\<close>

lemma compress_lz77_file_blob:
  assumes "data \<noteq> []" and "length data < 2 ^ 64"
  shows "\<exists>padding_bits encoded_data.
           compress_lz77_file data =
             Lz77Compressed (big_endian 8 (length data) @ [padding_bits] @ encoded_data) \<and>
           padding_bits < 8 \<and>
           carries encoded_data (concat (map token_bits (encode_lz77 data))) \<and>
           int (length encoded_data * 8) - int padding_bits
             = int (length (concat (map token_bits (encode_lz77 data))))"
proof -
  let ?B = "concat (map token_bits (encode_lz77 data))"
  obtain st where st: "pack_tokens (0, 0, []) (encode_lz77 data) = Inr st" "pack_ok st"
      "state_bits st = state_bits (0, 0, []) @ ?B"
    using pack_tokens_bits[OF pack_ok_init, of "encode_lz77 data"]
      encode_from_has_literal[of data 0]
    unfolding encode_lz77_def by blast
  obtain padding_bits encoded_data where fp: "finish_padding st = (padding_bits, encoded_data)"
    by (cases "finish_padding st")
  have p: "padding_bits < 8" "stream_bits encoded_data = state_bits st @ replicate padding_bits 0"
      "length (state_bits st) + padding_bits = 8 * length encoded_data"
    using finish_padding_ok[OF st(2) fp] by simp_all
  have sb: "state_bits st = ?B" using st(3) by simp
  have "(256::nat) ^ 8 = 2 ^ 64" by simp
  then have tb: "to_bytes (length data) 8 = Inr (big_endian 8 (length data))"
    using assms(2) by (simp add: to_bytes_def)
  have tp: "to_bytes padding_bits 1 = Inr [padding_bits]"
    using p(1) by (intro to_bytes_1) simp
  have c: "compress_lz77_file data =
      Lz77Compressed (big_endian 8 (length data) @ [padding_bits] @ encoded_data)"
    using assms(1) st(1) fp tb tp by (simp add: compress_lz77_file_def Let_def)
  have car: "carries encoded_data ?B"
    using p(2,3) sb by (simp add: carries_def)
  have "int (length encoded_data * 8) - int padding_bits = int (length ?B)"
    using p(3) sb by simp
  then show ?thesis using c p(1) car by blast
qed

lemma decompress_lz77_file_blob:
  assumes "n < 2 ^ 64" and "padding_bits < 256"
  shows "decompress_lz77_file (big_endian 8 n @ [padding_bits] @ encoded_data) =
           (case decode_loop encoded_data
                   (int (length encoded_data * 8) - int padding_bits) n (0, [], 0) of
              Inl e \<Rightarrow> (Lz77Exception e, None)
            | Inr (output_buffer, decoded_count) \<Rightarrow>
                if decoded_count = n
                then (Lz77Decompressed decoded_count, Some output_buffer)
                else (Lz77SizeMismatch n decoded_count, Some output_buffer))"
proof -
  have "(256::nat) ^ 8 = 2 ^ 64" by simp
  then have "from_bytes (big_endian 8 n) = n"
    using assms(1) by (intro from_bytes_big_endian) simp
  then show ?thesis
    by (simp add: decompress_lz77_file_def Let_def)
qed

lemma lz77_round_trip:
  assumes "data \<noteq> []" and "length data < 2 ^ 64" and "\<forall>b \<in> set data. b < 256"
  shows "\<exists>blob. compress_lz77_file data = Lz77Compressed blob \<and>
           decompress_lz77_file blob = (Lz77Decompressed (length data), Some data)"
proof -
  let ?B = "concat (map token_bits (encode_lz77 data))"
  obtain padding_bits encoded_data where c:
      "compress_lz77_file data =
         Lz77Compressed (big_endian 8 (length data) @ [padding_bits] @ encoded_data)"
      "padding_bits < 8" "carries encoded_data ?B"
      "int (length encoded_data * 8) - int padding_bits = int (length ?B)"
    using compress_lz77_file_blob[OF assms(1,2)] by blast
  have "decode_loop encoded_data (int (length ?B)) (length data) (0, take 0 data, 0)
      = Inr (data, length data)"
    using assms(3) by (intro decode_loop_tokens[OF c(3)]) (simp_all add: encode_lz77_def)
  then have "decode_loop encoded_data (int (length encoded_data * 8) - int padding_bits)
      (length data) (0, [], 0) = Inr (data, length data)"
    using c(4) by simp
  then have "decompress_lz77_file (big_endian 8 (length data) @ [padding_bits] @ encoded_data)
      = (Lz77Decompressed (length data), Some data)"
    using decompress_lz77_file_blob[OF assms(2), of padding_bits encoded_data] c(2) by simp
  then show ?thesis using c(1) by blast
qed

section \<open>The priority queue keeps its nodes\<close>

lemma mset_update_move:
  assumes "i < length xs" and "j < length xs"
  shows "mset ((xs[i := xs ! j])[j := v]) = mset (xs[i := v])"
proof (cases "i = j")
  case True
  then show ?thesis by simp
next
  case False
  have "mset ((xs[i := xs ! j])[j := v])
      = add_mset v (mset (xs[i := xs ! j]) - {#(xs[i := xs ! j]) ! j#})"
    using assms by (simp add: mset_update)
  also have "(xs[i := xs ! j]) ! j = xs ! j" using False by simp
  also have "mset (xs[i := xs ! j]) = add_mset (xs ! j) (mset xs - {#xs ! i#})"
    using assms by (simp add: mset_update)
  finally have "mset ((xs[i := xs ! j])[j := v]) = add_mset v (mset xs - {#xs ! i#})"
    by simp
  then show ?thesis using assms by (simp add: mset_update)
qed

lemma mset_siftdown_loop:
  "pos < length heap \<Longrightarrow>
   mset (siftdown_loop heap startpos pos newitem) = mset (heap[pos := newitem])"
proof (induction heap startpos pos newitem rule: siftdown_loop.induct)
  case (1 heap startpos pos newitem)
  let ?pp = "(pos - 1) div 2"
  show ?case
  proof (cases "pos > startpos \<and> node_lt newitem (heap ! ?pp)")
    case True
    have pp: "?pp < length heap" using "1.prems" by simp
    have "siftdown_loop heap startpos pos newitem
        = siftdown_loop (heap[pos := heap ! ?pp]) startpos ?pp newitem"
      using True by (subst siftdown_loop.simps) (simp add: Let_def)
    also have "mset \<dots> = mset ((heap[pos := heap ! ?pp])[?pp := newitem])"
      using "1.IH"[OF _ refl refl] True pp by simp
    also have "\<dots> = mset (heap[pos := newitem])"
      using "1.prems" pp by (rule mset_update_move)
    finally show ?thesis .
  next
    case False
    then show ?thesis by (subst siftdown_loop.simps) (auto simp: Let_def)
  qed
qed

lemma mset_siftdown: "pos < length heap \<Longrightarrow> mset (siftdown heap startpos pos) = mset heap"
  by (simp add: siftdown_def mset_siftdown_loop)

lemma mset_heappush: "mset (heappush heap item) = add_mset item (mset heap)"
  by (simp add: heappush_def mset_siftdown)

lemma smaller_child_bound:
  "childpos < length heap \<Longrightarrow> smaller_child heap childpos < length heap"
  by (simp add: smaller_child_def Let_def)

lemma mset_siftup_loop:
  "pos < length heap \<Longrightarrow> siftup_loop heap pos = (heap', pos') \<Longrightarrow>
   pos' < length heap \<and> mset (heap'[pos' := v]) = mset (heap[pos := v])"
proof (induction heap pos arbitrary: heap' pos' rule: siftup_loop.induct)
  case (1 heap pos)
  show ?case
  proof (cases "2 * pos + 1 < length heap")
    case True
    let ?c = "smaller_child heap (2 * pos + 1)"
    have c: "?c < length heap" using True by (rule smaller_child_bound)
    have r: "siftup_loop (heap[pos := heap ! ?c]) ?c = (heap', pos')"
      using "1.prems"(2) True by (subst (asm) siftup_loop.simps) simp
    have ih: "pos' < length (heap[pos := heap ! ?c]) \<and>
        mset (heap'[pos' := v]) = mset ((heap[pos := heap ! ?c])[?c := v])"
      using "1.IH"[OF True _ r] c by simp
    have "mset ((heap[pos := heap ! ?c])[?c := v]) = mset (heap[pos := v])"
      using "1.prems"(1) c by (rule mset_update_move)
    then show ?thesis using ih by simp
  next
    case False
    then have "heap' = heap" "pos' = pos"
      using "1.prems"(2) by (subst (asm) siftup_loop.simps, simp)+
    then show ?thesis using "1.prems"(1) by simp
  qed
qed

lemma mset_siftup: "pos < length heap \<Longrightarrow> mset (siftup heap pos) = mset heap"
proof -
  assume p: "pos < length heap"
  obtain heap' pos' where s: "siftup_loop heap pos = (heap', pos')"
    by (cases "siftup_loop heap pos")
  have l: "length heap' = length heap" by (rule length_siftup_loop[OF s])
  have m: "pos' < length heap" "mset (heap'[pos' := heap ! pos]) = mset (heap[pos := heap ! pos])"
    using mset_siftup_loop[OF p s, of "heap ! pos"] by simp_all
  have "mset (siftup heap pos) = mset (heap'[pos' := heap ! pos])"
    using s m(1) l by (simp add: siftup_def Let_def mset_siftdown)
  then show ?thesis using m(2) by simp
qed

lemma mset_heappop:
  assumes "heap \<noteq> []" and "heappop heap = (item, heap')"
  shows "mset heap = add_mset item (mset heap')"
proof -
  obtain xs x where h: "heap = xs @ [x]" using assms(1) by (metis rev_exhaust)
  show ?thesis
  proof (cases "xs = []")
    case True
    then show ?thesis using assms(2) h by (simp add: heappop_def)
  next
    case False
    then have "0 < length (xs[0 := x])" by simp
    then have "mset (siftup (xs[0 := x]) 0) = mset (xs[0 := x])" by (rule mset_siftup)
    moreover have "item = xs ! 0" "heap' = siftup (xs[0 := x]) 0"
      using assms(2) h False by (simp_all add: heappop_def Let_def)
    moreover have "mset (xs[0 := x]) = add_mset x (mset xs - {#xs ! 0#})"
      using False by (simp add: mset_update)
    moreover have "xs ! 0 \<in># mset xs" using False by simp
    ultimately show ?thesis using h by simp
  qed
qed

lemma set_heappush: "set (heappush heap item) = insert item (set heap)"
  using mset_heappush[of heap item] by (metis set_mset_add_mset_insert set_mset_mset)

lemma set_heappop:
  assumes "heap \<noteq> []" and "heappop heap = (item, heap')"
  shows "set heap = insert item (set heap')"
  using mset_heappop[OF assms] by (metis set_mset_add_mset_insert set_mset_mset)

lemma merge_step_nodes:
  assumes "1 < length pq"
  shows "\<exists>l r rest. mset pq = add_mset l (add_mset r rest) \<and>
           mset (merge_step pq) =
             add_mset (HuffmanNode None (freq l + freq r) (Some l) (Some r)) rest"
proof -
  obtain l q1 where p1: "heappop pq = (l, q1)" by (cases "heappop pq")
  obtain r q2 where p2: "heappop q1 = (r, q2)" by (cases "heappop q1")
  have ne: "pq \<noteq> []" using assms by auto
  have "length q1 = length pq - 1" using length_heappop[of pq] p1 by simp
  then have ne1: "q1 \<noteq> []" using assms by auto
  have m1: "mset pq = add_mset l (mset q1)" by (rule mset_heappop[OF ne p1])
  have m2: "mset q1 = add_mset r (mset q2)" by (rule mset_heappop[OF ne1 p2])
  have "mset (merge_step pq) =
      add_mset (HuffmanNode None (freq l + freq r) (Some l) (Some r)) (mset q2)"
    using p1 p2 by (simp add: merge_step_def Let_def mset_heappush)
  then show ?thesis using m1 m2
    by (intro exI[of _ l] exI[of _ r] exI[of _ "mset q2"]) simp
qed

section \<open>The tree and its codes\<close>

lemma map_of_dict_set: "map_of (dict_set d k v) = (map_of d)(k \<mapsto> v)"
  by (induction d) auto

lemma path_to_snoc_left:
  assumes "byte t = None" and "left t = Some n"
  shows "path_to t (CHR ''0'' # q) b = path_to n q b"
  using assms by (simp add: int_of_bit_char_def)

lemma path_to_snoc_right:
  assumes "byte t = None" and "right t = Some n"
  shows "path_to t (CHR ''1'' # q) b = path_to n q b"
  using assms by (simp add: int_of_bit_char_def)

text \<open>
  The generation started at \<open>t\<close> with the accumulated code \<open>acc\<close> only adds
  entries whose code is \<open>acc\<close> followed by a path from \<open>t\<close> to a leaf for the byte.
\<close>

lemma generate_codes_entries:
  "map_of (generate_codes_recursive t acc codes) b = Some c \<Longrightarrow>
   map_of codes b = Some c \<or> (\<exists>q. c = acc @ q \<and> path_to t q b)"
proof (induction t acc codes arbitrary: c rule: generate_codes_recursive.induct)
  case (1 bo f l r acc codes)
  let ?t = "HuffmanNode bo f l r"
  show ?case
  proof (cases bo)
    case (Some v)
    then have "((map_of codes)(v \<mapsto> acc)) b = Some c"
      using "1.prems" by (simp add: map_of_dict_set)
    then show ?thesis using Some by (cases "b = v") auto
  next
    case None
    define codes1 where "codes1 =
      (case l of Some ln \<Rightarrow> generate_codes_recursive ln (acc @ ''0'') codes | None \<Rightarrow> codes)"
    have g: "generate_codes_recursive ?t acc codes =
      (case r of Some rn \<Rightarrow> generate_codes_recursive rn (acc @ ''1'') codes1 | None \<Rightarrow> codes1)"
      using None by (cases r) (simp_all add: codes1_def Let_def)
    have left_ok: "\<And>c'. map_of codes1 b = Some c' \<Longrightarrow>
        map_of codes b = Some c' \<or> (\<exists>q. c' = acc @ q \<and> path_to ?t q b)"
    proof -
      fix c' assume a: "map_of codes1 b = Some c'"
      show "map_of codes b = Some c' \<or> (\<exists>q. c' = acc @ q \<and> path_to ?t q b)"
      proof (cases l)
        case None
        then show ?thesis using a by (simp add: codes1_def)
      next
        case (Some ln)
        then have "map_of (generate_codes_recursive ln (acc @ ''0'') codes) b = Some c'"
          using a by (simp add: codes1_def)
        then have "map_of codes b = Some c' \<or> (\<exists>q. c' = (acc @ ''0'') @ q \<and> path_to ln q b)"
          using "1.IH"(1)[OF \<open>bo = None\<close> Some] by blast
        then show ?thesis
        proof
          assume "map_of codes b = Some c'" then show ?thesis by simp
        next
          assume "\<exists>q. c' = (acc @ ''0'') @ q \<and> path_to ln q b"
          then obtain q where q: "c' = (acc @ ''0'') @ q" "path_to ln q b" by blast
          have p: "path_to ?t (CHR ''0'' # q) b"
            using q(2) Some \<open>bo = None\<close> by (simp add: int_of_bit_char_def)
          have e: "c' = acc @ (CHR ''0'' # q)" using q(1) by simp
          show ?thesis using p e by blast
        qed
      qed
    qed
    show ?thesis
    proof (cases r)
      case None
      then have "map_of codes1 b = Some c" using "1.prems" g by simp
      then show ?thesis by (rule left_ok)
    next
      case (Some rn)
      then have "map_of (generate_codes_recursive rn (acc @ ''1'') codes1) b = Some c"
        using "1.prems" g by simp
      then have "map_of codes1 b = Some c \<or> (\<exists>q. c = (acc @ ''1'') @ q \<and> path_to rn q b)"
        using "1.IH"(2)[OF \<open>bo = None\<close> codes1_def Some]
        by blast
      then show ?thesis
      proof
        assume "map_of codes1 b = Some c" then show ?thesis by (rule left_ok)
      next
        assume "\<exists>q. c = (acc @ ''1'') @ q \<and> path_to rn q b"
        then obtain q where q: "c = (acc @ ''1'') @ q" "path_to rn q b" by blast
        have p: "path_to ?t (CHR ''1'' # q) b"
          using q(2) Some \<open>bo = None\<close> by (simp add: int_of_bit_char_def)
        have e: "c = acc @ (CHR ''1'' # q)" using q(1) by simp
        show ?thesis using p e by blast
      qed
    qed
  qed
qed

lemma path_to_prefix:
  "path_to t p b \<Longrightarrow> path_to t (p @ q) b' \<Longrightarrow> q = [] \<and> b = b'"
proof (induction p arbitrary: t)
  case Nil
  then show ?case by (cases q) simp_all
next
  case (Cons c cs)
  then show ?case by (auto split: option.splits if_splits)
qed

lemma generate_codes_prefix_free:
  "prefix_free (generate_codes_recursive t [] [])"
  unfolding prefix_free_def
proof (intro allI impI)
  fix b1 b2 c1 c2
  assume a: "map_of (generate_codes_recursive t [] []) b1 = Some c1 \<and>
             map_of (generate_codes_recursive t [] []) b2 = Some c2 \<and> b1 \<noteq> b2"
  have p1: "path_to t c1 b1" using generate_codes_entries[of t "[]" "[]" b1 c1] a by simp
  have p2: "path_to t c2 b2" using generate_codes_entries[of t "[]" "[]" b2 c2] a by simp
  show "\<not> prefix c1 c2"
  proof
    assume "prefix c1 c2"
    then obtain q where "c2 = c1 @ q" by (auto simp: prefix_def)
    then have "b1 = b2" using path_to_prefix[OF p1, of q b2] p2 by simp
    then show False using a by simp
  qed
qed

text \<open>
  Claim C8. For every frequency dict, the code table that
  \<open>build_huffman_tree_and_codes\<close> returns is prefix-free: the code of one byte value
  is never a prefix of the code of another.
\<close>

theorem huffman_codes_prefix_free:
  "prefix_free (snd (build_huffman_tree_and_codes frequency))"
proof -
  let ?pq = "push_leaves frequency []"
  consider "?pq = []" | "?pq \<noteq> []" "length ?pq = 1" | "?pq \<noteq> []" "length ?pq \<noteq> 1"
    by blast
  then show ?thesis
  proof cases
    case 1
    then show ?thesis by (simp add: build_huffman_tree_and_codes_def prefix_free_def)
  next
    case 2
    have "prefix_free (case byte (?pq ! 0) of Some b \<Rightarrow> [(b, ''0'')] | None \<Rightarrow> [])"
      by (cases "byte (?pq ! 0)") (simp_all add: prefix_free_def)
    then show ?thesis using 2
      by (simp add: build_huffman_tree_and_codes_def Let_def)
  next
    case 3
    then show ?thesis
      using generate_codes_prefix_free
      by (simp add: build_huffman_tree_and_codes_def Let_def)
  qed
qed

section \<open>Every leaf gets a code\<close>

lemma dom_dict_set: "dom (map_of (dict_set d k v)) = insert k (dom (map_of d))"
  unfolding map_of_dict_set by simp

lemma dom_generate_codes:
  "dom (map_of (generate_codes_recursive t acc codes)) = dom (map_of codes) \<union> leaf_bytes t"
proof (induction t acc codes rule: generate_codes_recursive.induct)
  case (1 bo f l r acc codes)
  show ?case
  proof (cases bo)
    case (Some v)
    then show ?thesis by (simp add: dom_dict_set)
  next
    case None
    define codes1 where "codes1 =
      (case l of Some ln \<Rightarrow> generate_codes_recursive ln (acc @ ''0'') codes | None \<Rightarrow> codes)"
    have d1: "dom (map_of codes1) = dom (map_of codes) \<union>
        (case l of Some ln \<Rightarrow> leaf_bytes ln | None \<Rightarrow> {})"
      using "1.IH"(1)[OF None] by (cases l) (simp_all add: codes1_def)
    have g: "generate_codes_recursive (HuffmanNode bo f l r) acc codes =
      (case r of Some rn \<Rightarrow> generate_codes_recursive rn (acc @ ''1'') codes1 | None \<Rightarrow> codes1)"
      using None by (cases r) (simp_all add: codes1_def Let_def)
    have "dom (map_of (generate_codes_recursive (HuffmanNode bo f l r) acc codes))
        = dom (map_of codes1) \<union> (case r of Some rn \<Rightarrow> leaf_bytes rn | None \<Rightarrow> {})"
      unfolding g using "1.IH"(2)[OF None codes1_def] by (cases r) simp_all
    then show ?thesis using d1 None by (simp add: Un_assoc)
  qed
qed

lemma heap_leaves_mset: "heap_leaves heap = (\<Union>t \<in> set_mset (mset heap). leaf_bytes t)"
  by (simp add: heap_leaves_def)

lemma heap_leaves_heappush:
  "heap_leaves (heappush heap item) = leaf_bytes item \<union> heap_leaves heap"
  by (simp add: heap_leaves_def set_heappush)

lemma heap_leaves_push_leaves:
  "heap_leaves (push_leaves frequency pq) = fst ` set frequency \<union> heap_leaves pq"
proof (induction frequency pq rule: push_leaves.induct)
  case (1 pq)
  then show ?case by simp
next
  case (2 byte_val cnt rest pq)
  then show ?case by (simp add: heap_leaves_heappush Un_commute Un_left_commute)
qed

lemma length_push_leaves:
  "length (push_leaves frequency pq) = length frequency + length pq"
  by (induction frequency pq rule: push_leaves.induct) simp_all

lemma heap_leaves_merge_step:
  assumes "1 < length pq"
  shows "heap_leaves (merge_step pq) = heap_leaves pq"
proof -
  obtain l r rest where m: "mset pq = add_mset l (add_mset r rest)"
      "mset (merge_step pq) = add_mset (HuffmanNode None (freq l + freq r) (Some l) (Some r)) rest"
    using merge_step_nodes[OF assms] by blast
  show ?thesis unfolding heap_leaves_mset m by auto
qed

lemma merge_loop_root:
  "pq \<noteq> [] \<Longrightarrow> length (merge_loop pq) = 1 \<and> heap_leaves (merge_loop pq) = heap_leaves pq"
proof (induction pq rule: merge_loop.induct)
  case (1 pq)
  show ?case
  proof (cases "length pq > 1")
    case True
    have "length (merge_step pq) = length pq - 1" by (rule length_merge_step[OF True])
    then have "merge_step pq \<noteq> []" using True by auto
    then have "length (merge_loop (merge_step pq)) = 1 \<and>
        heap_leaves (merge_loop (merge_step pq)) = heap_leaves (merge_step pq)"
      using "1.IH"[OF True] by simp
    moreover have "merge_loop pq = merge_loop (merge_step pq)"
      using True by (subst merge_loop.simps) simp
    ultimately show ?thesis using heap_leaves_merge_step[OF True] by simp
  next
    case False
    then have "length pq = 1" using "1.prems" by (cases pq) auto
    moreover have "merge_loop pq = pq" using False by (subst merge_loop.simps) simp
    ultimately show ?thesis by simp
  qed
qed

lemma merge_loop_leaves:
  assumes "pq \<noteq> []"
  shows "leaf_bytes (merge_loop pq ! 0) = heap_leaves pq"
proof -
  have l: "length (merge_loop pq) = 1" and h: "heap_leaves (merge_loop pq) = heap_leaves pq"
    using merge_loop_root[OF assms] by simp_all
  then obtain t where t: "merge_loop pq = [t]"
    by (cases "merge_loop pq") auto
  then show ?thesis using h by (simp add: heap_leaves_def)
qed

section \<open>The frequency dict\<close>

lemma dict_set_keys:
  "fst ` set (dict_set d k v) = insert k (fst ` set d)"
  by (induction d) auto

lemma dict_set_distinct:
  "distinct (map fst d) \<Longrightarrow> distinct (map fst (dict_set d k v))"
  by (induction d) (auto simp: dict_set_keys)

lemma dict_set_new:
  "k \<notin> fst ` set d \<Longrightarrow> dict_set d k v = d @ [(k, v)]"
  by (induction d) auto

lemma calculate_frequency_loop_keys:
  "fst ` set (calculate_frequency_loop data f) = fst ` set f \<union> set data"
  by (induction data arbitrary: f) (auto simp: dict_set_keys)

lemma calculate_frequency_loop_distinct:
  "distinct (map fst f) \<Longrightarrow> distinct (map fst (calculate_frequency_loop data f))"
  by (induction data arbitrary: f) (simp_all add: dict_set_distinct)

lemma sum_dict_set_incr:
  fixes d :: "('k \<times> nat) list"
  assumes "distinct (map fst d)"
  shows "sum_list (map snd (dict_set d k (dict_get d k 0 + 1))) = sum_list (map snd d) + 1"
  using assms
proof (induction d)
  case Nil
  then show ?case by (simp add: dict_get_def)
next
  case (Cons p d)
  show ?case
  proof (cases "fst p = k")
    case True
    then show ?thesis by (cases p) (simp add: dict_get_def)
  next
    case False
    have "dict_get (p # d) k 0 = dict_get d k 0"
      using False by (cases p) (simp add: dict_get_def)
    then show ?thesis using False Cons by simp
  qed
qed

lemma calculate_frequency_loop_total:
  "distinct (map fst f) \<Longrightarrow>
   sum_list (map snd (calculate_frequency_loop data f)) = sum_list (map snd f) + length data"
proof (induction data arbitrary: f)
  case Nil
  then show ?case by simp
next
  case (Cons b data)
  have "distinct (map fst (dict_set f b (dict_get f b 0 + 1)))"
    using Cons.prems by (rule dict_set_distinct)
  then show ?case using Cons.IH sum_dict_set_incr[OF Cons.prems] by simp
qed

lemma calculate_frequency_loop_count:
  "map_of (calculate_frequency_loop data f) b =
     (if b \<in> set data \<or> b \<in> dom (map_of f)
      then Some (dict_get f b 0 + count_list data b) else None)"
proof (induction data arbitrary: f)
  case Nil
  then show ?case by (auto simp: dict_get_def split: option.splits)
next
  case (Cons a data)
  let ?f = "dict_set f a (dict_get f a 0 + 1)"
  have m: "map_of ?f = (map_of f)(a \<mapsto> dict_get f a 0 + 1)" by (rule map_of_dict_set)
  have g: "dict_get ?f b 0 = (if b = a then dict_get f a 0 + 1 else dict_get f b 0)"
    by (simp add: dict_get_def map_of_dict_set)
  have d: "b \<in> dom (map_of ?f) \<longleftrightarrow> b = a \<or> b \<in> dom (map_of f)"
    by (auto simp: map_of_dict_set)
  show ?case using Cons.IH[of ?f] g d by auto
qed

lemma calculate_frequency_keys: "fst ` set (calculate_frequency data) = set data"
  by (simp add: calculate_frequency_def calculate_frequency_loop_keys)

lemma calculate_frequency_distinct: "distinct (map fst (calculate_frequency data))"
  by (simp add: calculate_frequency_def calculate_frequency_loop_distinct)

lemma calculate_frequency_total:
  "sum_list (map snd (calculate_frequency data)) = length data"
  by (simp add: calculate_frequency_def calculate_frequency_loop_total)

lemma calculate_frequency_count:
  assumes "(b, c) \<in> set (calculate_frequency data)"
  shows "c = count_list data b"
proof -
  have "map_of (calculate_frequency data) b = Some c"
    using assms calculate_frequency_distinct by (simp add: map_of_eq_Some_iff)
  then show ?thesis
    unfolding calculate_frequency_def calculate_frequency_loop_count
    by (simp add: dict_get_def split: if_splits)
qed

lemma distinct_bytes_length:
  assumes "distinct (map fst d)" and "\<forall>k \<in> fst ` set d. k < (256::nat)"
  shows "length d \<le> 256"
proof -
  have "length d = card (fst ` set d)"
    using assms(1) by (metis distinct_card length_map set_map)
  also have "\<dots> \<le> card {..<256::nat}"
    using assms(2) by (intro card_mono) auto
  finally show ?thesis by simp
qed

section \<open>The header\<close>

lemma write_frequency_table_bytes:
  assumes "\<forall>(b, c) \<in> set frequency. b < 256 \<and> c < 2 ^ 32"
  shows "write_frequency_table frequency out = Inr (out @ table_bytes frequency)"
  using assms
proof (induction frequency arbitrary: out)
  case Nil
  then show ?case by (simp add: table_bytes_def)
next
  case (Cons p frequency)
  obtain b c where p: "p = (b, c)" by (cases p)
  have b: "b < 256" and c: "c < 2 ^ 32" using Cons.prems p by simp_all
  have "(256::nat) ^ 4 = 2 ^ 32" by simp
  then have tc: "to_bytes c 4 = Inr (big_endian 4 c)" using c by (simp add: to_bytes_def)
  have tb: "to_bytes b 1 = Inr [b]" using b by (rule to_bytes_1)
  have "write_frequency_table frequency (out @ [b] @ big_endian 4 c)
      = Inr ((out @ [b] @ big_endian 4 c) @ table_bytes frequency)"
    using Cons.prems by (intro Cons.IH) simp
  then show ?case using p tb tc by (simp add: table_bytes_def)
qed

lemma read_frequency_table_bytes:
  assumes "\<forall>(b, c) \<in> set frequency. b < 256 \<and> c < 2 ^ 32"
    and "distinct (map fst (f0 @ frequency))"
  shows "read_frequency_table (length frequency) (table_bytes frequency @ rest) f0 t0
         = Inr (f0 @ frequency, t0 + sum_list (map snd frequency), rest)"
  using assms
proof (induction frequency arbitrary: f0 t0)
  case Nil
  then show ?case by (simp add: table_bytes_def)
next
  case (Cons p frequency)
  obtain b c where p: "p = (b, c)" by (cases p)
  have b: "b < 256" and c: "c < 2 ^ 32" using Cons.prems(1) p by simp_all
  have "(256::nat) ^ 4 = 2 ^ 32" by simp
  then have fc: "from_bytes (big_endian 4 c) = c"
    using c by (intro from_bytes_big_endian) simp
  have tb: "table_bytes (p # frequency) @ rest
      = b # big_endian 4 c @ table_bytes frequency @ rest"
    using p by (simp add: table_bytes_def)
  have new: "b \<notin> fst ` set f0" using Cons.prems(2) p by auto
  have ds: "dict_set f0 b c = f0 @ [(b, c)]" by (rule dict_set_new[OF new])
  have ih: "read_frequency_table (length frequency) (table_bytes frequency @ rest)
        (f0 @ [(b, c)]) (t0 + c)
      = Inr ((f0 @ [(b, c)]) @ frequency, (t0 + c) + sum_list (map snd frequency), rest)"
    using Cons.prems p by (intro Cons.IH) simp_all
  show ?case
    unfolding tb using p fc ds ih by (simp add: Let_def)
qed

section \<open>Decoding as a walk over a bit string\<close>

lemma walk_bits_done:
  "total_size \<le> c \<Longrightarrow> walk_bits root total_size bits (n, c, out) = Inr (n, c, out)"
  by (cases bits) simp_all

lemma decode_byte_bits_walk:
  "c < total_size \<Longrightarrow>
   decode_byte_bits root total_size bv is (n, c, out)
     = walk_bits root total_size (map (bit_of_byte bv) is) (n, c, out)"
proof (induction "is" arbitrary: n c out)
  case Nil
  then show ?case by simp
next
  case (Cons i "is")
  let ?next = "if bit_of_byte bv i = 0 then left n else right n"
  show ?case
  proof (cases ?next)
    case None
    then show ?thesis using Cons.prems by (simp add: Let_def)
  next
    case (Some node)
    note nx = Some
    show ?thesis
    proof (cases "byte node")
      case None
      then show ?thesis using nx Cons by (simp add: Let_def)
    next
      case (Some b)
      note bt = Some
      show ?thesis
      proof (cases "to_bytes b 1")
        case (Inl e)
        then show ?thesis using nx bt Cons.prems by (simp add: Let_def)
      next
        case (Inr bs)
        show ?thesis
        proof (cases "total_size \<le> c + 1")
          case True
          then show ?thesis using nx bt Inr Cons.prems
            by (simp add: Let_def walk_bits_done)
        next
          case False
          then have "c + 1 < total_size" by simp
          then have "decode_byte_bits root total_size bv is (root, c + 1, out @ bs)
              = walk_bits root total_size (map (bit_of_byte bv) is) (root, c + 1, out @ bs)"
            by (rule Cons.IH)
          then show ?thesis using nx bt Inr Cons.prems False by (simp add: Let_def)
        qed
      qed
    qed
  qed
qed

lemma walk_bits_append:
  "walk_bits root total_size (xs @ ys) st =
     (case walk_bits root total_size xs st of
        Inl e \<Rightarrow> Inl e
      | Inr st' \<Rightarrow> walk_bits root total_size ys st')"
proof (induction xs arbitrary: st)
  case Nil
  then show ?case by simp
next
  case (Cons x xs)
  obtain n c out where st: "st = (n, c, out)" by (cases st)
  show ?case
  proof (cases "total_size \<le> c")
    case True
    then show ?thesis using st by (simp add: walk_bits_done)
  next
    case False
    then show ?thesis using st Cons
      by (simp split: option.splits sum.splits)
  qed
qed

lemma map_bit_of_byte_upt:
  "k \<le> 8 \<Longrightarrow> map (bit_of_byte bv) [0..<k] = take k (byte_bits bv)"
  by (simp add: byte_bits_def take_map)

lemma payload_bits_Cons:
  "rest \<noteq> [] \<Longrightarrow> payload_bits p (bv # rest) = byte_bits bv @ payload_bits p rest"
  by (simp add: payload_bits_def stream_bits_def)

lemma payload_bits_single: "payload_bits p [bv] = take (8 - p) (byte_bits bv)"
  by (simp add: payload_bits_def stream_bits_def)

lemma decode_payload_walk:
  "decode_payload root total_size padding_bits bytes st
     = walk_bits root total_size (payload_bits padding_bits bytes) st"
proof (induction bytes arbitrary: st)
  case Nil
  then show ?case by (simp add: payload_bits_def)
next
  case (Cons bv rest)
  obtain n c out where st: "st = (n, c, out)" by (cases st)
  show ?case
  proof (cases "c < total_size")
    case False
    then show ?thesis using st by (simp add: walk_bits_done)
  next
    case True
    show ?thesis
    proof (cases "rest = []")
      case True
      have "decode_byte_bits root total_size bv [0..<8 - padding_bits] (n, c, out)
          = walk_bits root total_size (take (8 - padding_bits) (byte_bits bv)) (n, c, out)"
        using \<open>c < total_size\<close>
        by (simp add: decode_byte_bits_walk map_bit_of_byte_upt)
      then show ?thesis using True st \<open>c < total_size\<close>
        by (simp add: payload_bits_single split: sum.splits)
    next
      case False
      have "decode_byte_bits root total_size bv [0..<8] (n, c, out)
          = walk_bits root total_size (byte_bits bv) (n, c, out)"
        using \<open>c < total_size\<close>
        by (simp add: decode_byte_bits_walk byte_bits_def)
      then show ?thesis using False st \<open>c < total_size\<close> Cons.IH
        by (simp add: payload_bits_Cons walk_bits_append split: sum.splits)
    qed
  qed
qed

lemma payload_bits_carried:
  assumes "stream_bits encoded_data = B @ replicate padding_bits 0"
    and "padding_bits < 8"
  shows "payload_bits padding_bits encoded_data = B"
proof (cases "encoded_data = []")
  case True
  then show ?thesis using assms by (simp add: payload_bits_def stream_bits_def)
next
  case False
  then obtain xs x where e: "encoded_data = xs @ [x]" by (metis rev_exhaust)
  have s: "stream_bits xs @ byte_bits x = B @ replicate padding_bits 0"
    using assms(1) e by simp
  have l: "length B = length (stream_bits xs) + (8 - padding_bits)"
    using arg_cong[OF s, of length] assms(2) by simp
  have "B = take (length B) (stream_bits xs @ byte_bits x)" using s by simp
  also have "\<dots> = stream_bits xs @ take (8 - padding_bits) (byte_bits x)"
    using l by simp
  finally show ?thesis using e by (simp add: payload_bits_def)
qed

section \<open>One code, then all of them\<close>

lemma walk_bits_code:
  assumes "path_to t p b" and "byte t = None" and "c < total_size" and "b < 256"
  shows "walk_bits root total_size (map int_of_bit_char p @ rest) (t, c, out)
         = walk_bits root total_size rest (root, c + 1, out @ [b])"
  using assms(1,2)
proof (induction p arbitrary: t)
  case Nil
  then show ?case by simp
next
  case (Cons ch p)
  let ?next = "if int_of_bit_char ch = 0 then left t else right t"
  obtain node where nx: "?next = Some node" and pn: "path_to node p b"
    using Cons.prems(1) by (auto split: option.splits)
  show ?case
  proof (cases "byte node")
    case None
    then have "walk_bits root total_size (map int_of_bit_char p @ rest) (node, c, out)
        = walk_bits root total_size rest (root, c + 1, out @ [b])"
      using Cons.IH[OF pn] by simp
    then show ?thesis using nx None assms(3) by simp
  next
    case (Some b')
    have "p = []" using pn Some by (cases p) simp_all
    then have "b' = b" using pn Some by simp
    moreover have "to_bytes b (Suc 0) = Inr [b]" using to_bytes_1[OF assms(4)] by simp
    ultimately show ?thesis using nx Some assms(3) \<open>p = []\<close>
      by simp
  qed
qed

lemma walk_bits_data:
  assumes "byte root = None"
    and "\<forall>b \<in> set data. b < 256 \<and> (\<exists>p. map_of codes b = Some p \<and> path_to root p b)"
  shows "walk_bits root (c + length data) (code_bits codes data) (root, c, out)
         = Inr (root, c + length data, out @ data)"
  using assms(2)
proof (induction data arbitrary: c out)
  case Nil
  then show ?case by (simp add: code_bits_def)
next
  case (Cons b data)
  obtain p where p: "map_of codes b = Some p" "path_to root p b" and b: "b < 256"
    using Cons.prems by auto
  have cb: "code_bits codes (b # data) = map int_of_bit_char p @ code_bits codes data"
    using p(1) by (simp add: code_bits_def)
  have "walk_bits root (c + length (b # data)) (map int_of_bit_char p @ code_bits codes data)
      (root, c, out)
      = walk_bits root (c + length (b # data)) (code_bits codes data) (root, c + 1, out @ [b])"
    using p(2) assms(1) b by (intro walk_bits_code) simp_all
  also have "\<dots> = Inr (root, (c + 1) + length data, (out @ [b]) @ data)"
    using Cons.IH[of "c + 1" "out @ [b]"] Cons.prems by simp
  finally show ?case unfolding cb by simp
qed

lemma encode_bytes_bits:
  assumes "pack_ok st" and "\<forall>b \<in> set data. map_of codes b \<noteq> None"
  shows "\<exists>st'. encode_bytes codes data st = Inr st' \<and> pack_ok st' \<and>
           state_bits st' = state_bits st @ code_bits codes data"
  using assms
proof (induction data arbitrary: st)
  case Nil
  then show ?case by (simp add: code_bits_def)
next
  case (Cons b data)
  obtain p where p: "map_of codes b = Some p" using Cons.prems(2) by auto
  let ?st1 = "foldl (\<lambda>s c. pack_bit s (int_of_bit_char c)) st p"
  have f: "?st1 = foldl pack_bit st (map int_of_bit_char p)"
    by (simp add: foldl_map)
  have "\<forall>x \<in> set (map int_of_bit_char p). x < 2" by (auto simp: int_of_bit_char_def)
  then have s1: "pack_ok ?st1" "state_bits ?st1 = state_bits st @ map int_of_bit_char p"
    unfolding f using foldl_pack_bit_ok[OF Cons.prems(1)] by blast+
  obtain st' where "encode_bytes codes data ?st1 = Inr st'" "pack_ok st'"
      "state_bits st' = state_bits ?st1 @ code_bits codes data"
    using Cons.IH[OF s1(1)] Cons.prems(2) by auto
  then show ?case using p s1(2) by (simp add: code_bits_def)
qed

section \<open>Huffman: compress, then decompress\<close>

lemma leaf_bytes_leaf: "byte t = Some v \<Longrightarrow> leaf_bytes t = {v}"
  by (cases t) simp

lemma build_tree_two_symbols:
  assumes "a \<in> fst ` set frequency" and "b \<in> fst ` set frequency" and "a \<noteq> b"
  shows "\<exists>root codes. build_huffman_tree_and_codes frequency = (Some root, codes) \<and>
           byte root = None \<and>
           (\<forall>x \<in> fst ` set frequency. \<exists>p. map_of codes x = Some p \<and> path_to root p x)"
proof -
  let ?pq = "push_leaves frequency []"
  let ?root = "merge_loop ?pq ! 0"
  let ?codes = "generate_codes_recursive ?root [] []"
  have "heap_leaves [] = {}" by (simp add: heap_leaves_def)
  then have hl: "heap_leaves ?pq = fst ` set frequency"
    by (simp add: heap_leaves_push_leaves)
  have len: "length ?pq = length frequency" by (simp add: length_push_leaves)
  have "card (fst ` set frequency) \<le> length frequency"
    by (metis card_length length_map set_map)
  moreover have "card {a, b} \<le> card (fst ` set frequency)"
    using assms by (intro card_mono) auto
  ultimately have l2: "2 \<le> length frequency" using assms(3) by simp
  then have ne: "?pq \<noteq> []" and n1: "length ?pq \<noteq> 1" using len by auto
  have b: "build_huffman_tree_and_codes frequency = (Some ?root, ?codes)"
    using ne n1 by (simp add: build_huffman_tree_and_codes_def Let_def)
  have lb: "leaf_bytes ?root = fst ` set frequency"
    using merge_loop_leaves[OF ne] hl by simp
  have internal: "byte ?root = None"
  proof (cases "byte ?root")
    case None
    then show ?thesis .
  next
    case (Some v)
    then have "fst ` set frequency = {v}" using leaf_bytes_leaf lb by metis
    then show ?thesis using assms by auto
  qed
  have "\<forall>x \<in> fst ` set frequency. \<exists>p. map_of ?codes x = Some p \<and> path_to ?root p x"
  proof
    fix x assume "x \<in> fst ` set frequency"
    then have "x \<in> dom (map_of ?codes)" using lb by (simp add: dom_generate_codes)
    then obtain p where p: "map_of ?codes x = Some p" by auto
    then have "path_to ?root p x" using generate_codes_entries[OF p] by simp
    then show "\<exists>p. map_of ?codes x = Some p \<and> path_to ?root p x" using p by blast
  qed
  then show ?thesis using b internal by blast
qed

lemma decompress_file_blob:
  assumes "padding_bits < 256" and "length frequency < 2 ^ 16"
    and "\<forall>(b, c) \<in> set frequency. b < 256 \<and> c < 2 ^ 32"
    and "distinct (map fst frequency)"
    and "fst (build_huffman_tree_and_codes frequency) = Some root"
  shows "decompress_file ([padding_bits] @ big_endian 2 (length frequency) @
             table_bytes frequency @ encoded_data) =
           (case walk_bits root (sum_list (map snd frequency))
                   (payload_bits padding_bits encoded_data) (root, 0, []) of
              Inl (e, out) \<Rightarrow> (DecompressionException e, out)
            | Inr (current_node, decoded_byte_count, out) \<Rightarrow>
                if decoded_byte_count = sum_list (map snd frequency)
                then (Decompressed, out)
                else (ByteCountMismatch (sum_list (map snd frequency)) decoded_byte_count,
                      out))"
proof -
  have "(256::nat) ^ 2 = 2 ^ 16" by simp
  then have k: "from_bytes (big_endian 2 (length frequency)) = length frequency"
    using assms(2) by (intro from_bytes_big_endian) simp
  have r: "read_frequency_table (length frequency) (table_bytes frequency @ encoded_data) [] 0
      = Inr ([] @ frequency, 0 + sum_list (map snd frequency), encoded_data)"
    using assms(3,4) by (intro read_frequency_table_bytes) simp_all
  show ?thesis
    using k r assms(5)
    by (simp add: decompress_file_def Let_def decode_payload_walk)
qed

lemma huffman_round_trip:
  assumes bytes: "\<forall>b \<in> set data. b < 256"
    and counts: "\<forall>b. count_list data b < 2 ^ 32"
    and two: "x \<in> set data" "y \<in> set data" "x \<noteq> y"
  shows "\<exists>blob. compress_file data = Compressed blob \<and>
           decompress_file blob = (Decompressed, data)"
proof -
  let ?F = "calculate_frequency data"
  have keys: "fst ` set ?F = set data" by (rule calculate_frequency_keys)
  have dist: "distinct (map fst ?F)" by (rule calculate_frequency_distinct)
  have total: "sum_list (map snd ?F) = length data" by (rule calculate_frequency_total)
  have entries: "\<forall>(b, c) \<in> set ?F. b < 256 \<and> c < 2 ^ 32"
  proof -
    { fix b c assume bc: "(b, c) \<in> set ?F"
      then have "b \<in> fst ` set ?F" by force
      then have "b < 256" using keys bytes by simp
      moreover have "c < 2 ^ 32" using calculate_frequency_count[OF bc] counts by simp
      ultimately have "b < 256 \<and> c < 2 ^ 32" by simp }
    then show ?thesis by auto
  qed
  have "\<forall>k \<in> fst ` set ?F. k < 256" using keys bytes by simp
  then have len: "length ?F \<le> 256" using distinct_bytes_length[OF dist] by simp
  have ne: "?F \<noteq> []" using keys two(1) by auto
  obtain root codes where b: "build_huffman_tree_and_codes ?F = (Some root, codes)"
      "byte root = None"
      "\<forall>x \<in> fst ` set ?F. \<exists>p. map_of codes x = Some p \<and> path_to root p x"
    using build_tree_two_symbols[of x ?F y] two keys by blast
  have has_code: "\<forall>b \<in> set data. map_of codes b \<noteq> None" using b(3) keys by auto
  obtain st where st: "encode_bytes codes data (0, 0, []) = Inr st" "pack_ok st"
      "state_bits st = state_bits (0, 0, []) @ code_bits codes data"
    using encode_bytes_bits[OF pack_ok_init has_code] by blast
  obtain padding_bits encoded_data where fp: "finish_padding st = (padding_bits, encoded_data)"
    by (cases "finish_padding st")
  have p: "padding_bits < 8"
      "stream_bits encoded_data = state_bits st @ replicate padding_bits 0"
    using finish_padding_ok[OF st(2) fp] by simp_all
  have tp: "to_bytes padding_bits 1 = Inr [padding_bits]"
    using p(1) by (intro to_bytes_1) simp
  have "(256::nat) ^ 2 = 65536" by simp
  then have tk: "to_bytes (length ?F) 2 = Inr (big_endian 2 (length ?F))"
    using len by (simp add: to_bytes_def)
  have wt: "write_frequency_table ?F ([padding_bits] @ big_endian 2 (length ?F))
      = Inr (([padding_bits] @ big_endian 2 (length ?F)) @ table_bytes ?F)"
    by (rule write_frequency_table_bytes[OF entries])
  let ?blob = "[padding_bits] @ big_endian 2 (length ?F) @ table_bytes ?F @ encoded_data"
  have c: "compress_file data = Compressed ?blob"
    using ne b(1) st(1) fp tp tk wt by (simp add: compress_file_def Let_def)
  have pb: "payload_bits padding_bits encoded_data = code_bits codes data"
    using payload_bits_carried[OF _ p(1), of encoded_data "code_bits codes data"] p(2) st(3)
    by simp
  have "\<forall>b \<in> set data. b < 256 \<and> (\<exists>p. map_of codes b = Some p \<and> path_to root p b)"
    using bytes b(3) keys by simp
  then have w: "walk_bits root (0 + length data) (code_bits codes data) (root, 0, [])
      = Inr (root, 0 + length data, [] @ data)"
    by (rule walk_bits_data[OF b(2)])
  have "decompress_file ?blob = (Decompressed, data)"
    using decompress_file_blob[of padding_bits ?F root encoded_data] p(1) len entries dist b(1)
      pb w total
    by simp
  then show ?thesis using c by blast
qed

section \<open>Round trips\<close>

text \<open>
  Claim C1, as the code has it. For every buffer of byte values: when the buffer is not
  empty and shorter than \<open>2^64\<close> bytes, decompressing the LZ77 blob of the buffer
  succeeds and writes exactly the buffer; when the buffer holds at least two distinct
  byte values, each fewer than \<open>2^32\<close> times, decompressing the Huffman blob of the
  buffer succeeds and writes exactly the buffer. On the empty buffer both compressors
  refuse and produce no blob.
\<close>

theorem round_trip_identity:
  assumes "\<forall>b \<in> set data. b < 256"
  shows "(data \<noteq> [] \<and> length data < 2 ^ 64 \<longrightarrow>
            (\<exists>blob. compress_lz77_file data = Lz77Compressed blob \<and>
               decompress_lz77_file blob = (Lz77Decompressed (length data), Some data))) \<and>
         ((\<exists>x \<in> set data. \<exists>y \<in> set data. x \<noteq> y) \<and> (\<forall>b. count_list data b < 2 ^ 32) \<longrightarrow>
            (\<exists>blob. compress_file data = Compressed blob \<and>
               decompress_file blob = (Decompressed, data))) \<and>
         compress_lz77_file [] = Lz77EmptyFile \<and> compress_file [] = CompressionFailed"
proof (intro conjI impI)
  assume "data \<noteq> [] \<and> length data < 2 ^ 64"
  then show "\<exists>blob. compress_lz77_file data = Lz77Compressed blob \<and>
      decompress_lz77_file blob = (Lz77Decompressed (length data), Some data)"
    using lz77_round_trip[OF _ _ assms] by blast
next
  assume a: "(\<exists>x \<in> set data. \<exists>y \<in> set data. x \<noteq> y) \<and> (\<forall>b. count_list data b < 2 ^ 32)"
  then obtain x y where "x \<in> set data" "y \<in> set data" "x \<noteq> y" by blast
  then show "\<exists>blob. compress_file data = Compressed blob \<and>
      decompress_file blob = (Decompressed, data)"
    using huffman_round_trip[OF assms] a by blast
next
  show "compress_lz77_file [] = Lz77EmptyFile" by (simp add: compress_lz77_file_def)
next
  show "compress_file [] = CompressionFailed"
    by (simp add: compress_file_def calculate_frequency_def)
qed

section \<open>Concrete runs\<close>

theorem find_longest_match_keeps_first_longest_witness:
  "find_longest_match [1, 2, 3, 1, 2, 3] [1, 2, 3] = (6, 3) \<and> (0::nat) < 3 \<and>
   candidate_length [1, 2, 3, 1, 2, 3] [1, 2, 3] (length [1, 2, 3, 1, 2, 3::nat] - 6) = 3 \<and>
   candidate_length [1, 2, 3, 1, 2, 3] [1, 2, 3] 3 = 3"
proof -
  have h: "find_longest_match [1, 2, 3, 1, 2, 3] [1, 2, 3] = (6, 3)" by code_simp
  have c: "candidate_length [1, 2, 3, 1, 2, 3] [1, 2, 3] 3 = 3" by code_simp
  show ?thesis
    using h c find_longest_match_keeps_first_longest [OF h] by simp
qed

theorem match_tokens_never_self_overlap_witness:
  "(3, 3, None) \<in> set (encode_lz77 [65, 66, 67, 65, 66, 67]) \<and> MIN_MATCH_LENGTH \<le> 3 \<and>
   (3::nat) \<le> 3"
proof -
  have m: "(3, 3, None) \<in> set (encode_lz77 [65, 66, 67, 65, 66, 67])" by code_simp
  have g: "MIN_MATCH_LENGTH \<le> 3" by (simp add: MIN_MATCH_LENGTH_def)
  show ?thesis
    using m g match_tokens_never_self_overlap [OF m g] by simp
qed

theorem huffman_codes_prefix_free_witness:
  "map_of (snd (build_huffman_tree_and_codes [(65, 2), (66, 1)])) 66 = Some ''0'' \<and>
   map_of (snd (build_huffman_tree_and_codes [(65, 2), (66, 1)])) 65 = Some ''1'' \<and>
   (66::nat) \<noteq> 65 \<and> \<not> prefix ''0'' ''1''"
proof -
  have a: "map_of (snd (build_huffman_tree_and_codes [(65, 2), (66, 1)])) 66 = Some ''0''"
    by code_simp
  have b: "map_of (snd (build_huffman_tree_and_codes [(65, 2), (66, 1)])) 65 = Some ''1''"
    by code_simp
  have c: "(66::nat) \<noteq> 65" by simp
  have "\<not> prefix ''0'' ''1''"
    using huffman_codes_prefix_free [of "[(65, 2), (66, 1)]", unfolded prefix_free_def] a b c
    by blast
  then show ?thesis using a b c by simp
qed

theorem round_trip_identity_witness:
  "(65::nat) < 256 \<and> (66::nat) < 256 \<and> [65, 66, 65] \<noteq> ([]::nat list) \<and>
   length [65, 66, 65::nat] < 2 ^ 64 \<and> (65::nat) \<noteq> 66 \<and>
   (\<exists>blob. compress_lz77_file [65, 66, 65] = Lz77Compressed blob \<and>
      decompress_lz77_file blob = (Lz77Decompressed 3, Some [65, 66, 65])) \<and>
   (\<exists>blob. compress_file [65, 66, 65] = Compressed blob \<and>
      decompress_file blob = (Decompressed, [65, 66, 65]))"
proof -
  have h1: "\<forall>b \<in> set [65, 66, 65::nat]. b < 256" by simp
  have h2: "[65, 66, 65] \<noteq> ([]::nat list) \<and> length [65, 66, 65::nat] < 2 ^ 64" by simp
  have h3a: "\<exists>x \<in> set [65, 66, 65::nat]. \<exists>y \<in> set [65, 66, 65::nat]. x \<noteq> y"
    by (intro bexI[of _ 65] bexI[of _ 66]) simp_all
  have h3b: "\<forall>b. count_list [65, 66, 65::nat] b < 2 ^ 32" by simp
  have h3: "(\<exists>x \<in> set [65, 66, 65::nat]. \<exists>y \<in> set [65, 66, 65::nat]. x \<noteq> y) \<and>
      (\<forall>b. count_list [65, 66, 65::nat] b < 2 ^ 32)" using h3a h3b by blast
  have l: "length [65, 66, 65::nat] = 3" by simp
  have a: "\<exists>blob. compress_lz77_file [65, 66, 65] = Lz77Compressed blob \<and>
      decompress_lz77_file blob = (Lz77Decompressed (length [65, 66, 65::nat]), Some [65, 66, 65])"
    using round_trip_identity [OF h1] h2 by blast
  have b: "\<exists>blob. compress_file [65, 66, 65] = Compressed blob \<and>
      decompress_file blob = (Decompressed, [65, 66, 65])"
    using round_trip_identity [OF h1] h3 by blast
  show ?thesis
    using a [unfolded l] b by simp
qed

theorem empty_buffer_has_no_blob:
  "compress_file [] \<noteq> Compressed [0, 0, 0] \<and> compress_lz77_file [] = Lz77EmptyFile"
  by (simp add: compress_file_def calculate_frequency_def compress_lz77_file_def)

text \<open>
  Claim C2 at the buffer of one byte 65: the code of 65 is the single bit 0 and
  compression succeeds, but decompressing the blob raises AttributeError at the first
  bit, because the root is a leaf and \<open>current_node.left\<close> is \<open>None\<close>; nothing is
  written.
\<close>

theorem single_symbol_decompress_raises:
  "snd (build_huffman_tree_and_codes (calculate_frequency [65])) = [(65, ''0'')] \<and>
   compress_file [65] = Compressed [7, 0, 1, 65, 0, 0, 0, 1, 0] \<and>
   decompress_file [7, 0, 1, 65, 0, 0, 0, 1, 0] = (DecompressionException AttributeError, [])"
  by code_simp

theorem empty_input_writes_no_header:
  "compress_file [] \<noteq> Compressed [0, 0, 0] \<and> fst (decompress_file [0, 0, 0]) \<noteq> Decompressed"
  by code_simp

text \<open>
  Claim C3, as the code has it. On the empty input buffer Huffman compression refuses
  (\<open>Compression failed: Could not read file or file is empty.\<close>) and writes no blob;
  Huffman decompression of the 3-byte blob with padding 0 and count 0 reports
  \<open>Could not rebuild Huffman tree\<close> and leaves the output empty.
\<close>

theorem empty_input_is_refused:
  "compress_file [] = CompressionFailed \<and>
   decompress_file [0, 0, 0] = (CouldNotRebuildTree, [])"
  by code_simp

theorem heap_ties_not_insertion_order:
  "map byte (push_leaves (calculate_frequency [1, 2, 3, 4]) []) = [Some 1, Some 2, Some 3, Some 4] \<and>
   map freq (push_leaves (calculate_frequency [1, 2, 3, 4]) []) = [1, 1, 1, 1] \<and>
   byte (fst (heappop (push_leaves (calculate_frequency [1, 2, 3, 4]) []))) = Some 1 \<and>
   byte (fst (heappop (snd (heappop (push_leaves (calculate_frequency [1, 2, 3, 4]) []))))) = Some 3"
  by code_simp

theorem truncated_payload_leaves_partial_output:
  "decompress_lz77_file [0, 0, 0, 0, 0, 0, 0, 2, 7, 32, 128] = (Lz77SizeMismatch 2 1, Some [65])"
  by code_simp

end
